theory Spec2Isabelle
  imports Main "HOL-Library.Word"
begin

unbundle bit_operations_syntax

section \<open>gifmeta: metadata extraction from GIF files\<close>

text \<open>
  A shallow embedding of \<^verbatim>\<open>src/gifmeta/gif.py\<close> and \<^verbatim>\<open>src/gifmeta/constants.py\<close>.
  Every method of \<^verbatim>\<open>_GifStream\<close> becomes a function from the cursor state to a result and the
  cursor state after the call; a raised exception is the \<open>Inl\<close> branch of the result, and the
  cursor state at the moment of the raise is kept, since the Python object outlives the exception.

  All integers of the program are decoded from unsigned bytes and are only added, masked and
  shifted, never subtracted, so Python's \<^verbatim>\<open>int\<close> is modelled by \<open>nat\<close>; a single byte is an
  \<open>8 word\<close>.
\<close>

type_synonym byte = "8 word"

subsection \<open>Constants of \<^verbatim>\<open>gif.py\<close> and enums of \<^verbatim>\<open>constants.py\<close>\<close>

definition EXT_INTRODUCER :: byte where "EXT_INTRODUCER = 0x21"
definition EXT_GRAPHIC_CONTROL_LABEL :: byte where "EXT_GRAPHIC_CONTROL_LABEL = 0xF9"
definition TRAILER_LABEL :: byte where "TRAILER_LABEL = 0x3B"
definition IMAGE_SEPARATOR :: byte where "IMAGE_SEPARATOR = 0x2C"

definition GIF_87a :: string where "GIF_87a = ''87a''"
definition GIF_89a :: string where "GIF_89a = ''89a''"
definition VALID_GIF_REVS :: "string list" where "VALID_GIF_REVS = [GIF_87a, GIF_89a]"

datatype GifVersion = GIF87a | GIF89a

datatype DisposalMethod = NONE | NO_DISPOSE | RESTORE_BACKGROUND | RESTORE_PREVIOUS

text \<open>The class \<^verbatim>\<open>_BlockType\<close> (an identifier cannot start with an underscore here).\<close>

datatype BlockType =
    IMAGE_DATA | EXT_GRAPHIC_CONTROL | EXT_COMMENT | EXT_PLAINTEXT | EXT_APPLICATION
  | EXT_UNKNOWN | TRAILER

subsection \<open>Exceptions\<close>

text \<open>
  One constructor for each \<^verbatim>\<open>raise\<close> of the source, carrying the values formatted into its
  message, and one for each exception that a Python primitive raises on the way:
  \<^item> \<open>BadSignature\<close>, \<open>InvalidVersion\<close>, \<open>BadSeparator\<close>, \<open>UnexpectedEndOfFile\<close>, \<open>UnknownBlock\<close>,
    \<open>UnexpectedExtensionByte\<close>, \<open>BadGraphicControlSignature\<close>: the \<^verbatim>\<open>GifStreamException\<close>s;
  \<^item> \<open>TwoGraphicControlBlocks\<close>, \<open>UnexpectedBlocktype\<close>: the two plain \<^verbatim>\<open>Exception\<close>s of
    \<^verbatim>\<open>Gif.__parse_metadata\<close>;
  \<^item> \<open>ShortRead\<close>: the cursor could not deliver the bytes asked for;
  \<^item> \<open>IndexError\<close>: \<^verbatim>\<open>signature[0]\<close> on an empty peek;
  \<^item> \<open>ValueError n\<close>: \<^verbatim>\<open>DisposalMethod(n)\<close> for an \<open>n\<close> that is no member's value.
\<close>

datatype error =
    BadSignature string
  | InvalidVersion string
  | BadSeparator byte
  | UnexpectedEndOfFile
  | UnknownBlock byte byte
  | UnexpectedExtensionByte byte
  | BadGraphicControlSignature
  | TwoGraphicControlBlocks
  | UnexpectedBlocktype
  | ShortRead
  | IndexError
  | ValueError nat

subsection \<open>The byte cursor\<close>

text \<open>
  Modelled from the spec: the class \<^verbatim>\<open>MmapCursor\<close> of the package \<^verbatim>\<open>mmaputils\<close>, which
  \<^verbatim>\<open>gif.py\<close> imports and which is not part of the sources. The spec (section 6) asks of it
  sequential fixed-width integer reads, fixed-length raw-byte reads, fixed-length ASCII reads,
  an explicitly advanceable position and release, every read failing fast on a short read;
  section 4.3 makes \<^verbatim>\<open>read\<close> a read-ahead that does not consume, and \<^verbatim>\<open>check_blocktype\<close>
  tests the length of what \<^verbatim>\<open>read(2)\<close> returns, so a peek near the end of the file is short.
  \<^verbatim>\<open>position\<close> is an attribute that the source assigns to without a check.

  \<open>buf\<close> is the content of the mapped file, \<open>position\<close> the offset of the next byte, \<open>closed\<close>
  whether \<^verbatim>\<open>close\<close> has been called. \<open>skipped\<close> is a history variable: the offsets that
  \<^verbatim>\<open>skip_data\<close> has stepped over with \<^verbatim>\<open>position += data_size\<close>. No operation reads it.
\<close>

record MmapCursor =
  buf :: "byte list"
  position :: nat
  closed :: bool
  skipped :: "nat set"

type_synonym 'a stream_op = "MmapCursor \<Rightarrow> (error + 'a) \<times> MmapCursor"

definition return :: "'a \<Rightarrow> 'a stream_op" where
  "return x s = (Inr x, s)"

definition raise :: "error \<Rightarrow> 'a stream_op" where
  "raise e s = (Inl e, s)"

text \<open>Sequencing of two statements: an exception of the first leaves the second undone.\<close>

definition then_do :: "'a stream_op \<Rightarrow> ('a \<Rightarrow> 'b stream_op) \<Rightarrow> 'b stream_op" where
  "then_do m f s = (case m s of (Inl e, s') \<Rightarrow> (Inl e, s') | (Inr x, s') \<Rightarrow> f x s')"

definition MmapCursor_init :: "byte list \<Rightarrow> MmapCursor" where
  "MmapCursor_init contents = \<lparr>buf = contents, position = 0, closed = False, skipped = {}\<rparr>"

text \<open>\<^verbatim>\<open>stream.next(n)\<close>: the next \<open>n\<close> bytes, consumed.\<close>

definition next_bytes :: "nat \<Rightarrow> byte list stream_op" where
  "next_bytes n s =
     (if position s + n \<le> length (buf s)
      then (Inr (take n (drop (position s) (buf s))), s\<lparr>position := position s + n\<rparr>)
      else (Inl ShortRead, s))"

text \<open>\<^verbatim>\<open>stream.next_byte()\<close>: the next byte, consumed.\<close>

definition next_byte :: "byte stream_op" where
  "next_byte s =
     (if position s < length (buf s)
      then (Inr (buf s ! position s), s\<lparr>position := position s + 1\<rparr>)
      else (Inl ShortRead, s))"

text \<open>The value of a byte string, least significant byte first.\<close>

fun little_endian :: "byte list \<Rightarrow> nat" where
  "little_endian [] = 0"
| "little_endian (b # bs) = unat b + 256 * little_endian bs"

text \<open>\<^verbatim>\<open>stream.next_int(n)\<close>, for a cursor built with \<^verbatim>\<open>byteorder="little"\<close>.\<close>

definition next_int :: "nat \<Rightarrow> nat stream_op" where
  "next_int n = then_do (next_bytes n) (\<lambda>bs. return (little_endian bs))"

text \<open>\<^verbatim>\<open>stream.next_ascii(n)\<close>: the next \<open>n\<close> bytes as a string, one character a byte.\<close>

definition next_ascii :: "nat \<Rightarrow> string stream_op" where
  "next_ascii n = then_do (next_bytes n) (\<lambda>bs. return (map (\<lambda>b. char_of (unat b)) bs))"

text \<open>\<^verbatim>\<open>stream.read(n)\<close>: up to \<open>n\<close> bytes ahead of the cursor, which stays where it is.\<close>

definition read :: "nat \<Rightarrow> byte list stream_op" where
  "read n s = (Inr (take n (drop (position s) (buf s))), s)"

text \<open>\<^verbatim>\<open>stream.position += n\<close>.\<close>

definition advance :: "nat \<Rightarrow> unit stream_op" where
  "advance n s = (Inr (), s\<lparr>position := position s + n\<rparr>)"

text \<open>\<^verbatim>\<open>stream.position += n\<close> inside \<^verbatim>\<open>skip_data\<close>: the same assignment, and the history
  variable takes the offsets stepped over.\<close>

definition advance_over_data :: "nat \<Rightarrow> unit stream_op" where
  "advance_over_data n s =
     (Inr (), s\<lparr>position := position s + n,
                skipped := skipped s \<union> {position s ..< position s + n}\<rparr>)"

text \<open>\<^verbatim>\<open>stream.close()\<close>.\<close>

definition close :: "MmapCursor \<Rightarrow> MmapCursor" where
  "close s = s\<lparr>closed := True\<rparr>"

subsection \<open>Descriptor classes\<close>

record LogicalScreenDescriptor =
  width :: nat
  height :: nat
  colortable_exists :: bool
  color_resolution :: nat
  colortable_is_sorted :: bool
  colortable_size :: nat
  background_color_index :: nat
  pixel_aspect_ratio :: nat

definition LogicalScreenDescriptor_init :: LogicalScreenDescriptor where
  "LogicalScreenDescriptor_init =
     \<lparr>LogicalScreenDescriptor.width = 0, LogicalScreenDescriptor.height = 0,
      LogicalScreenDescriptor.colortable_exists = False,
      LogicalScreenDescriptor.color_resolution = 0,
      LogicalScreenDescriptor.colortable_is_sorted = False,
      LogicalScreenDescriptor.colortable_size = 0,
      LogicalScreenDescriptor.background_color_index = 0,
      LogicalScreenDescriptor.pixel_aspect_ratio = 0\<rparr>"

text \<open>\<^verbatim>\<open>LogicalScreenDescriptor.num_colors\<close>.\<close>

definition LogicalScreenDescriptor_num_colors :: "LogicalScreenDescriptor \<Rightarrow> nat" where
  "LogicalScreenDescriptor_num_colors self = 2 ^ (LogicalScreenDescriptor.colortable_size self + 1)"

text \<open>
  An \<^verbatim>\<open>ImageDescriptor\<close> has the eight attributes that \<^verbatim>\<open>__init__\<close> creates. A Python object
  takes any further attribute on assignment: \<open>interlaced\<close> is the attribute that
  \<^verbatim>\<open>consume_image_descriptor\<close> assigns to, \<open>None\<close> as long as the object does not have it.
\<close>

record ImageDescriptor =
  leftpos :: nat
  toppos :: nat
  width :: nat
  height :: nat
  interlace :: bool
  colortable_exists :: bool
  colortable_is_sorted :: bool
  colortable_size :: nat
  interlaced :: "bool option"

definition ImageDescriptor_init :: ImageDescriptor where
  "ImageDescriptor_init =
     \<lparr>leftpos = 0, toppos = 0, ImageDescriptor.width = 0, ImageDescriptor.height = 0,
      interlace = False,
      ImageDescriptor.colortable_exists = False,
      ImageDescriptor.colortable_is_sorted = False,
      ImageDescriptor.colortable_size = 0,
      interlaced = None\<rparr>"

text \<open>\<^verbatim>\<open>ImageDescriptor.num_colors\<close>.\<close>

definition ImageDescriptor_num_colors :: "ImageDescriptor \<Rightarrow> nat" where
  "ImageDescriptor_num_colors self = 2 ^ (ImageDescriptor.colortable_size self + 1)"

record GraphicControlExtension =
  disposal_method :: DisposalMethod
  user_input_flag :: bool
  transparent_flag :: bool
  transparent_color :: nat
  delay :: nat

definition GraphicControlExtension_init :: GraphicControlExtension where
  "GraphicControlExtension_init =
     \<lparr>disposal_method = NONE, user_input_flag = False, transparent_flag = False,
      transparent_color = 0, delay = 0\<rparr>"

text \<open>\<^verbatim>\<open>GraphicControlExtension.delay_ms\<close>.\<close>

definition delay_ms :: "GraphicControlExtension \<Rightarrow> nat" where
  "delay_ms self = delay self * 10"

text \<open>\<^verbatim>\<open>DisposalMethod(n)\<close>: the member of the enum with value \<open>n\<close>; Python raises
  \<^verbatim>\<open>ValueError\<close> when there is none.\<close>

definition DisposalMethod_of_value :: "nat \<Rightarrow> DisposalMethod stream_op" where
  "DisposalMethod_of_value n =
     (if n = 0 then return NONE
      else if n = 1 then return NO_DISPOSE
      else if n = 2 then return RESTORE_BACKGROUND
      else if n = 3 then return RESTORE_PREVIOUS
      else raise (ValueError n))"

type_synonym Colortable = "(byte \<times> byte \<times> byte) list"

subsection \<open>The methods of \<^verbatim>\<open>_GifStream\<close>\<close>

definition GifStream_init :: "byte list \<Rightarrow> MmapCursor" where
  "GifStream_init contents = MmapCursor_init contents"

definition consume_header :: "GifVersion stream_op" where
  "consume_header =
     then_do (next_ascii 3) (\<lambda>signature.
       if signature \<noteq> ''GIF'' then raise (BadSignature signature) else
     then_do (next_ascii 3) (\<lambda>version.
       if version \<notin> set VALID_GIF_REVS then raise (InvalidVersion version)
       else return (if version = GIF_87a then GIF87a else GIF89a)))"

definition consume_screen_descriptor :: "LogicalScreenDescriptor stream_op" where
  "consume_screen_descriptor =
     then_do (next_int 2) (\<lambda>w.
     then_do (next_int 2) (\<lambda>h.
     then_do next_byte (\<lambda>packed_fields.
     then_do next_byte (\<lambda>bg.
     then_do next_byte (\<lambda>par.
       return (LogicalScreenDescriptor_init
         \<lparr>LogicalScreenDescriptor.width := w,
          LogicalScreenDescriptor.height := h,
          LogicalScreenDescriptor.background_color_index := unat bg,
          LogicalScreenDescriptor.pixel_aspect_ratio := unat par,
          LogicalScreenDescriptor.colortable_size := unat (packed_fields AND 0x7),
          LogicalScreenDescriptor.colortable_is_sorted := (drop_bit 3 packed_fields AND 0x1 \<noteq> 0),
          LogicalScreenDescriptor.color_resolution := unat (drop_bit 4 packed_fields AND 0x7),
          LogicalScreenDescriptor.colortable_exists :=
            (drop_bit 7 packed_fields AND 0x1 \<noteq> 0)\<rparr>))))))"

text \<open>The \<^verbatim>\<open>for\<close> loop of \<^verbatim>\<open>consume_color_table\<close>, \<open>n\<close> rounds left. With a cursor that
  fails fast \<^verbatim>\<open>next(3)\<close> has three bytes; unpacking any other number of values into
  \<^verbatim>\<open>r, g, b\<close> is Python's \<^verbatim>\<open>ValueError\<close>.\<close>

fun color_table_loop :: "nat \<Rightarrow> Colortable \<Rightarrow> Colortable stream_op" where
  "color_table_loop 0 colortable s = (Inr colortable, s)"
| "color_table_loop (Suc n) colortable s =
     (case next_bytes 3 s of
        (Inl e, s') \<Rightarrow> (Inl e, s')
      | (Inr [r, g, b], s') \<Rightarrow> color_table_loop n (colortable @ [(r, g, b)]) s'
      | (Inr bs, s') \<Rightarrow> (Inl (ValueError (length bs)), s'))"

definition consume_color_table :: "nat \<Rightarrow> Colortable stream_op" where
  "consume_color_table num_colors = color_table_loop num_colors []"

definition consume_image_descriptor :: "ImageDescriptor stream_op" where
  "consume_image_descriptor =
     then_do next_byte (\<lambda>separator.
       if separator \<noteq> IMAGE_SEPARATOR then raise (BadSeparator separator) else
     then_do (next_int 2) (\<lambda>l.
     then_do (next_int 2) (\<lambda>t.
     then_do (next_int 2) (\<lambda>w.
     then_do (next_int 2) (\<lambda>h.
     then_do next_byte (\<lambda>packed_fields.
       return (ImageDescriptor_init
         \<lparr>leftpos := l, toppos := t,
          ImageDescriptor.width := w, ImageDescriptor.height := h,
          ImageDescriptor.colortable_size := unat (packed_fields AND 0x7),
          ImageDescriptor.colortable_is_sorted := (drop_bit 5 packed_fields AND 0x1 \<noteq> 0),
          interlaced := Some (drop_bit 6 packed_fields AND 0x1 \<noteq> 0),
          ImageDescriptor.colortable_exists :=
            (drop_bit 7 packed_fields AND 0x1 \<noteq> 0)\<rparr>)))))))"

definition check_blocktype :: "BlockType stream_op" where
  "check_blocktype =
     then_do (read 2) (\<lambda>signature.
       case signature of
         [] \<Rightarrow> raise IndexError
       | b0 # rest \<Rightarrow>
           if b0 = TRAILER_LABEL then return TRAILER
           else if length signature < 2 then raise UnexpectedEndOfFile
           else if b0 = IMAGE_SEPARATOR then return IMAGE_DATA
           else if b0 = EXT_INTRODUCER then
             (if signature ! 1 = EXT_GRAPHIC_CONTROL_LABEL then return EXT_GRAPHIC_CONTROL
              else return EXT_UNKNOWN)
           else raise (UnknownBlock b0 (signature ! 1)))"

text \<open>The \<^verbatim>\<open>while\<close> loop of \<^verbatim>\<open>skip_data\<close>, entered with the values of \<^verbatim>\<open>data_size\<close>
  and \<^verbatim>\<open>total_data\<close>. Every round reads one byte that is there, so the loop ends.\<close>

function skip_data_loop :: "nat \<Rightarrow> nat \<Rightarrow> nat stream_op" where
  "skip_data_loop data_size total_data s =
     (if data_size \<noteq> 0 then
        (case advance_over_data data_size s of
           (Inl e, s1) \<Rightarrow> (Inl e, s1)
         | (Inr _, s1) \<Rightarrow>
             (case next_byte s1 of
                (Inl e, s2) \<Rightarrow> (Inl e, s2)
              | (Inr b, s2) \<Rightarrow> skip_data_loop (unat b) (total_data + unat b) s2))
      else (Inr total_data, s))"
  by pat_completeness auto
termination
  by (relation "measure (\<lambda>(d, t, s). length (buf s) - position s)")
     (auto simp: advance_over_data_def next_byte_def split: if_splits)

declare skip_data_loop.simps [simp del]

definition skip_data :: "nat stream_op" where
  "skip_data = then_do next_byte (\<lambda>b. skip_data_loop (unat b) (unat b))"

definition skip_image_data :: "nat stream_op" where
  "skip_image_data = then_do (advance 1) (\<lambda>_. skip_data)"

definition skip_extension :: "nat stream_op" where
  "skip_extension =
     then_do next_byte (\<lambda>introducer.
       if introducer \<noteq> EXT_INTRODUCER then raise (UnexpectedExtensionByte introducer) else
     then_do (advance 1) (\<lambda>_. skip_data))"

definition consume_graphic_control_extension :: "GraphicControlExtension stream_op" where
  "consume_graphic_control_extension =
     then_do (next_bytes 2) (\<lambda>signature.
       if signature \<noteq> [EXT_INTRODUCER, EXT_GRAPHIC_CONTROL_LABEL]
       then raise BadGraphicControlSignature else
     then_do (advance 1) (\<lambda>_.
     then_do next_byte (\<lambda>packed_fields.
     then_do (next_int 2) (\<lambda>d.
     then_do next_byte (\<lambda>tc.
     then_do (advance 1) (\<lambda>_.
     then_do (DisposalMethod_of_value (unat (drop_bit 2 packed_fields AND 0x7))) (\<lambda>dm.
       return (GraphicControlExtension_init
         \<lparr>delay := d, transparent_color := unat tc,
          transparent_flag := (packed_fields AND 0x1 \<noteq> 0),
          user_input_flag := (drop_bit 1 packed_fields AND 0x1 \<noteq> 0),
          disposal_method := dm\<rparr>))))))))"

subsection \<open>The classes \<^verbatim>\<open>GifImage\<close> and \<^verbatim>\<open>Gif\<close>\<close>

text \<open>The attribute \<^verbatim>\<open>stream\<close> of a \<^verbatim>\<open>GifImage\<close> is a reference to the one cursor of the parse,
  which the model threads through; it is no field of the record.\<close>

record GifImage =
  graphic_control :: "GraphicControlExtension option"
  colortable :: "Colortable option"
  image_descriptor :: ImageDescriptor
  image_data_size :: nat

text \<open>\<^verbatim>\<open>GifImage.__init__\<close> with \<^verbatim>\<open>GifImage.__parse_metadata\<close>.\<close>

definition GifImage_parse_metadata :: "GraphicControlExtension option \<Rightarrow> GifImage stream_op" where
  "GifImage_parse_metadata gc =
     then_do consume_image_descriptor (\<lambda>desc.
     then_do (if ImageDescriptor.colortable_exists desc
              then then_do (consume_color_table (ImageDescriptor_num_colors desc))
                     (\<lambda>table. return (Some table))
              else return None) (\<lambda>table.
     then_do skip_image_data (\<lambda>n.
       return \<lparr>graphic_control = gc, colortable = table,
               image_descriptor = desc, image_data_size = n\<rparr>)))"

record Gif =
  version :: GifVersion
  colortable :: "Colortable option"
  logical_screen_descriptor :: LogicalScreenDescriptor
  images :: "GifImage list"

subsection \<open>Every operation moves the cursor forward only\<close>

text \<open>The dispatch loop of \<^verbatim>\<open>Gif.__parse_metadata\<close> ends because every block it takes moves
  the cursor forward inside the file. The facts for that come before the loop.\<close>

lemma then_do_cases:
  assumes "then_do m f s = (r, s')"
  obtains (raised) e where "m s = (Inl e, s')" "r = Inl e"
        | (returned) x s1 where "m s = (Inr x, s1)" "f x s1 = (r, s')"
  using assms by (auto simp: then_do_def split: prod.splits sum.splits)

definition steps_to :: "MmapCursor \<Rightarrow> MmapCursor \<Rightarrow> bool" where
  "steps_to s s' \<longleftrightarrow>
     buf s' = buf s \<and> closed s' = closed s \<and> position s \<le> position s' \<and>
     skipped s \<subseteq> skipped s' \<and>
     (\<forall>i\<in>skipped s'. i \<in> skipped s \<or> (position s \<le> i \<and> i < position s'))"

lemma steps_to_refl [simp]: "steps_to s s"
  by (simp add: steps_to_def)

lemma steps_to_trans: "steps_to s s1 \<Longrightarrow> steps_to s1 s2 \<Longrightarrow> steps_to s s2"
  unfolding steps_to_def by (intro conjI ballI; fastforce)

lemma then_do_steps:
  assumes "then_do m f s = (r, s')"
    and "\<And>r1 s1. m s = (r1, s1) \<Longrightarrow> steps_to s s1"
    and "\<And>x s1. m s = (Inr x, s1) \<Longrightarrow> f x s1 = (r, s') \<Longrightarrow> steps_to s1 s'"
  shows "steps_to s s'"
  using assms(1)
proof (cases rule: then_do_cases)
  case (raised e) then show ?thesis using assms(2) by blast
next
  case (returned x s1) then show ?thesis using assms(2,3) steps_to_trans by blast
qed

lemma next_bytes_steps: "next_bytes n s = (r, s') \<Longrightarrow> steps_to s s'"
  by (auto simp: next_bytes_def steps_to_def split: if_splits)

lemma next_byte_steps: "next_byte s = (r, s') \<Longrightarrow> steps_to s s'"
  by (auto simp: next_byte_def steps_to_def split: if_splits)

lemma return_steps: "return x s = (r, s') \<Longrightarrow> steps_to s s'"
  by (auto simp: return_def)

lemma raise_steps: "raise e s = (r, s') \<Longrightarrow> steps_to s s'"
  by (auto simp: raise_def)

lemma next_int_steps: "next_int n s = (r, s') \<Longrightarrow> steps_to s s'"
  unfolding next_int_def
  by (erule then_do_steps) (auto dest: next_bytes_steps return_steps)

lemma next_ascii_steps: "next_ascii n s = (r, s') \<Longrightarrow> steps_to s s'"
  unfolding next_ascii_def
  by (erule then_do_steps) (auto dest: next_bytes_steps return_steps)

lemma read_steps: "read n s = (r, s') \<Longrightarrow> s' = s"
  by (auto simp: read_def)

lemma advance_steps: "advance n s = (r, s') \<Longrightarrow> steps_to s s'"
  by (auto simp: advance_def steps_to_def)

lemma advance_over_data_steps: "advance_over_data n s = (r, s') \<Longrightarrow> steps_to s s'"
  by (auto simp: advance_over_data_def steps_to_def)

lemma DisposalMethod_of_value_steps: "DisposalMethod_of_value n s = (r, s') \<Longrightarrow> s' = s"
  by (auto simp: DisposalMethod_of_value_def return_def raise_def split: if_splits)

lemma check_blocktype_state: "check_blocktype s = (r, s') \<Longrightarrow> s' = s"
  by (auto simp: check_blocktype_def then_do_def read_def return_def raise_def
           split: list.splits if_splits)

lemma skip_data_loop_steps: "skip_data_loop d t s = (r, s') \<Longrightarrow> steps_to s s'"
proof (induction d t s rule: skip_data_loop.induct)
  case (1 d t s)
  show ?case
  proof (cases "d = 0")
    case True
    with "1.prems" show ?thesis by (simp add: skip_data_loop.simps)
  next
    case False
    obtain s1 where a: "advance_over_data d s = (Inr (), s1)"
      by (simp add: advance_over_data_def)
    show ?thesis
    proof (cases "next_byte s1")
      case (Pair r2 s2)
      have st: "steps_to s s2"
        using a Pair advance_over_data_steps next_byte_steps steps_to_trans by blast
      show ?thesis
      proof (cases r2)
        case (Inl e)
        with "1.prems" False a Pair st show ?thesis by (simp add: skip_data_loop.simps [of d])
      next
        case (Inr b)
        with "1.prems" False a Pair have "skip_data_loop (unat b) (t + unat b) s2 = (r, s')"
          by (simp add: skip_data_loop.simps [of d])
        then have "steps_to s2 s'"
          using "1.IH" False a Pair Inr by simp
        with st show ?thesis by (rule steps_to_trans)
      qed
    qed
  qed
qed

lemma skip_data_steps: "skip_data s = (r, s') \<Longrightarrow> steps_to s s'"
  unfolding skip_data_def
  by (erule then_do_steps) (auto dest: next_byte_steps skip_data_loop_steps)

lemma skip_image_data_steps: "skip_image_data s = (r, s') \<Longrightarrow> steps_to s s'"
  unfolding skip_image_data_def
  by (erule then_do_steps) (auto dest: advance_steps skip_data_steps)

lemma color_table_loop_steps: "color_table_loop n t s = (r, s') \<Longrightarrow> steps_to s s'"
proof (induction n arbitrary: t s)
  case 0
  then show ?case by simp
next
  case (Suc n)
  obtain r1 s1 where nb: "next_bytes 3 s = (r1, s1)" by (cases "next_bytes 3 s")
  then have st: "steps_to s s1" by (rule next_bytes_steps)
  from Suc.prems nb show ?case
    using st Suc.IH steps_to_trans
    by (auto split: sum.splits list.splits)
qed

lemma consume_color_table_steps: "consume_color_table n s = (r, s') \<Longrightarrow> steps_to s s'"
  unfolding consume_color_table_def by (rule color_table_loop_steps)


lemma consume_image_descriptor_steps: "consume_image_descriptor s = (r, s') \<Longrightarrow> steps_to s s'"
  unfolding consume_image_descriptor_def
  by (erule then_do_steps next_byte_steps next_int_steps return_steps raise_steps
        | simp split: if_splits)+

lemma GifImage_parse_metadata_steps: "GifImage_parse_metadata gc s = (r, s') \<Longrightarrow> steps_to s s'"
  unfolding GifImage_parse_metadata_def
  by (erule then_do_steps consume_image_descriptor_steps consume_color_table_steps
        skip_image_data_steps return_steps | simp split: if_splits)+

lemma next_byte_Inr:
  "next_byte s = (Inr b, s') \<Longrightarrow>
     position s < length (buf s) \<and> b = buf s ! position s \<and> s' = s\<lparr>position := position s + 1\<rparr>"
  by (auto simp: next_byte_def split: if_splits)

lemma next_bytes_Inr:
  "next_bytes n s = (Inr bs, s') \<Longrightarrow>
     position s + n \<le> length (buf s) \<and> bs = take n (drop (position s) (buf s)) \<and>
     s' = s\<lparr>position := position s + n\<rparr>"
  by (auto simp: next_bytes_def split: if_splits)

lemma then_do_InrE:
  assumes "then_do m f s = (Inr y, s')"
  obtains x s1 where "m s = (Inr x, s1)" "f x s1 = (Inr y, s')"
  using assms by (auto simp: then_do_def split: prod.splits sum.splits)

lemma consume_image_descriptor_progress:
  assumes "consume_image_descriptor s = (Inr d, s')"
  shows "position s < position s' \<and> position s < length (buf s) \<and> buf s' = buf s"
  using assms unfolding consume_image_descriptor_def
  apply (erule_tac then_do_InrE)
  apply (drule next_byte_Inr)
  apply (subgoal_tac "steps_to s1 s'")
   apply (auto simp: steps_to_def)[1]
  apply (erule then_do_steps next_byte_steps next_int_steps return_steps raise_steps
        | simp split: if_splits)+
  done

lemma GifImage_parse_metadata_progress:
  assumes "GifImage_parse_metadata gc s = (Inr img, s')"
  shows "position s < position s' \<and> position s < length (buf s) \<and> buf s' = buf s"
  using assms unfolding GifImage_parse_metadata_def
  apply (erule_tac then_do_InrE)
  apply (drule consume_image_descriptor_progress)
  apply (subgoal_tac "steps_to s1 s'")
   apply (auto simp: steps_to_def)[1]
  apply (erule then_do_steps consume_color_table_steps
        skip_image_data_steps return_steps | simp split: if_splits)+
  done

lemma skip_extension_progress:
  assumes "skip_extension s = (Inr n, s')"
  shows "position s < position s' \<and> position s < length (buf s) \<and> buf s' = buf s"
  using assms unfolding skip_extension_def
  apply (erule_tac then_do_InrE)
  apply (drule next_byte_Inr)
  apply (subgoal_tac "steps_to s1 s'")
   apply (auto simp: steps_to_def)[1]
  apply (erule then_do_steps advance_steps skip_data_steps raise_steps
        | simp split: if_splits)+
  done

lemma consume_graphic_control_extension_progress:
  assumes "consume_graphic_control_extension s = (Inr g, s')"
  shows "position s < position s' \<and> position s < length (buf s) \<and> buf s' = buf s"
  using assms unfolding consume_graphic_control_extension_def
  apply (erule_tac then_do_InrE)
  apply (drule next_bytes_Inr)
  apply (subgoal_tac "steps_to s1 s'")
   apply (auto simp: steps_to_def)[1]
  apply (erule then_do_steps advance_steps next_byte_steps next_int_steps raise_steps return_steps
        | drule DisposalMethod_of_value_steps | simp split: if_splits)+
  done

subsection \<open>\<^verbatim>\<open>Gif.__parse_metadata\<close>\<close>

text \<open>The \<^verbatim>\<open>while True\<close> loop. \<open>gc\<close> is the local variable \<^verbatim>\<open>graphic_control\<close>, \<open>imgs\<close> the
  local list \<^verbatim>\<open>images\<close> (the two names are fields of the records above). An object without
  \<^verbatim>\<open>__bool__\<close> and \<^verbatim>\<open>__len__\<close> is true, so \<^verbatim>\<open>if graphic_control:\<close> asks whether it is not
  \<^verbatim>\<open>None\<close>.\<close>

function parse_loop ::
  "GraphicControlExtension option \<Rightarrow> GifImage list \<Rightarrow> (GifImage list) stream_op" where
  "parse_loop gc imgs s =
     (case check_blocktype s of
        (Inl e, s1) \<Rightarrow> (Inl e, s1)
      | (Inr blocktype, s1) \<Rightarrow>
          (case blocktype of
             TRAILER \<Rightarrow> (Inr imgs, s1)
           | EXT_GRAPHIC_CONTROL \<Rightarrow>
               (case gc of
                  Some _ \<Rightarrow> (Inl TwoGraphicControlBlocks, s1)
                | None \<Rightarrow>
                    (case consume_graphic_control_extension s1 of
                       (Inl e, s2) \<Rightarrow> (Inl e, s2)
                     | (Inr g, s2) \<Rightarrow> parse_loop (Some g) imgs s2))
           | IMAGE_DATA \<Rightarrow>
               (case GifImage_parse_metadata gc s1 of
                  (Inl e, s2) \<Rightarrow> (Inl e, s2)
                | (Inr img, s2) \<Rightarrow> parse_loop None (imgs @ [img]) s2)
           | EXT_UNKNOWN \<Rightarrow>
               (case skip_extension s1 of
                  (Inl e, s2) \<Rightarrow> (Inl e, s2)
                | (Inr _, s2) \<Rightarrow> parse_loop gc imgs s2)
           | _ \<Rightarrow> (Inl UnexpectedBlocktype, s1)))"
  by pat_completeness auto
termination
proof (relation "measure (\<lambda>(g, i, s). length (buf s) - position s)", goal_cases)
  case 1
  show ?case by simp
next
  case (2 gc imgs s x1 s1 blocktype img s2)
  then show ?case
    by (auto dest!: check_blocktype_state [OF sym] GifImage_parse_metadata_progress [OF sym])
next
  case (3 gc imgs s x1 s1 blocktype x2 g s2)
  then show ?case
    by (auto dest!: check_blocktype_state [OF sym] consume_graphic_control_extension_progress [OF sym])
next
  case (4 gc imgs s x1 s1 blocktype x2 n s2)
  then show ?case
    by (auto dest!: check_blocktype_state [OF sym] skip_extension_progress [OF sym])
qed

declare parse_loop.simps [simp del]

text \<open>
  \<^verbatim>\<open>Gif.__init__\<close> with \<^verbatim>\<open>Gif.__parse_metadata\<close>, on the content of the file at \<^verbatim>\<open>path\<close>. The
  result is the object built or the exception that left the constructor, the cursor as the
  call leaves it, and the lines printed.
\<close>

definition Gif_parse_metadata :: "byte list \<Rightarrow> (error + Gif) \<times> MmapCursor \<times> string list" where
  "Gif_parse_metadata contents =
     (case consume_header (GifStream_init contents) of
        (Inl e, s1) \<Rightarrow> (Inl e, s1, [])
      | (Inr v, s1) \<Rightarrow>
     (case consume_screen_descriptor s1 of
        (Inl e, s2) \<Rightarrow> (Inl e, s2, [])
      | (Inr lsd, s2) \<Rightarrow>
     (case (if LogicalScreenDescriptor.colortable_exists lsd
            then (case consume_color_table (LogicalScreenDescriptor_num_colors lsd) s2 of
                    (Inl e, s3) \<Rightarrow> (Inl e, s3, [])
                  | (Inr table, s3) \<Rightarrow> (Inr (Some table), s3, []))
            else (Inr None, s2, [''warning: no global color table''])) of
        (Inl e, s3, out) \<Rightarrow> (Inl e, s3, out)
      | (Inr table, s3, out) \<Rightarrow>
     (case parse_loop None [] s3 of
        (Inl e, s4) \<Rightarrow> (Inl e, s4, out)
      | (Inr imgs, s4) \<Rightarrow>
          (Inr \<lparr>version = v, Gif.colortable = table,
                logical_screen_descriptor = lsd, images = imgs\<rparr>,
           close s4, out)))))"

subsection \<open>Chains of sub-blocks in a file\<close>

text \<open>The bytes of a chain of sub-blocks with the given payloads: each payload after its length
  byte, and the terminating zero.\<close>

fun sub_blocks :: "byte list list \<Rightarrow> byte list" where
  "sub_blocks [] = [0]"
| "sub_blocks (c # cs) = of_nat (length c) # c @ sub_blocks cs"

text \<open>The offsets of the payload bytes of such a chain that starts at offset \<open>p\<close>.\<close>

fun payload_offsets :: "nat \<Rightarrow> byte list list \<Rightarrow> nat set" where
  "payload_offsets p [] = {}"
| "payload_offsets p (c # cs) =
     {p + 1 ..< p + 1 + length c} \<union> payload_offsets (p + 1 + length c) cs"

subsection \<open>Colour tables in a file\<close>

text \<open>The \<open>n\<close> RGB triples of the bytes \<open>d\<close> from offset \<open>p\<close> on, in the order of the file.\<close>

definition rgb_triples :: "byte list \<Rightarrow> nat \<Rightarrow> nat \<Rightarrow> Colortable" where
  "rgb_triples d p n = map (\<lambda>i. (d ! (p + 3 * i), d ! (p + 3 * i + 1), d ! (p + 3 * i + 2))) [0..<n]"

text \<open>The local colour table of an image fits the image's descriptor.\<close>

definition local_table_fits :: "byte list \<Rightarrow> GifImage \<Rightarrow> bool" where
  "local_table_fits d img \<longleftrightarrow>
     ImageDescriptor.colortable_size (image_descriptor img) \<le> 7 \<and>
     (case GifImage.colortable img of
        None \<Rightarrow> \<not> ImageDescriptor.colortable_exists (image_descriptor img)
      | Some t \<Rightarrow>
          ImageDescriptor.colortable_exists (image_descriptor img) \<and>
          length t = ImageDescriptor_num_colors (image_descriptor img) \<and>
          (\<exists>p. p + 3 * length t \<le> length d \<and> t = rgb_triples d p (length t)))"

subsection \<open>A file with a global and a local colour table\<close>

text \<open>Header, a screen descriptor with a global table of two colours, one image with a local
  table of two colours and a chain of one sub-block of one byte, and the trailer.\<close>

definition two_table_gif :: "byte list" where
  "two_table_gif =
     [0x47, 0x49, 0x46, 0x38, 0x39, 0x61,
      1, 0, 1, 0, 0x80, 0, 0,
      1, 2, 3, 4, 5, 6,
      0x2C, 0, 0, 0, 0, 1, 0, 1, 0, 0x80,
      7, 8, 9, 10, 11, 12,
      2, 1, 0xAA, 0,
      0x3B]"

subsection \<open>Notions for comparing the parses of two files\<close>

text \<open>\<open>clean\<close>: what has been stepped over lies behind the cursor. \<open>agrees d2 s s'\<close>: the bytes
  \<open>d2\<close> are those of the file between the cursors \<open>s\<close> and \<open>s'\<close>, but for the offsets stepped
  over. \<open>local_at m s\<close>: the operation \<open>m\<close>, run from \<open>s\<close>, moves the cursor forward only and gives
  the same result on every such \<open>d2\<close>. \<open>reads_to\<close>: a move that steps over nothing.\<close>

definition clean :: "MmapCursor \<Rightarrow> bool" where
  "clean s \<longleftrightarrow> (\<forall>i\<in>skipped s. i < position s)"

definition agrees :: "byte list \<Rightarrow> MmapCursor \<Rightarrow> MmapCursor \<Rightarrow> bool" where
  "agrees d2 s s' \<longleftrightarrow>
     length d2 = length (buf s) \<and>
     (\<forall>i. position s \<le> i \<and> i < position s' \<and> i < length d2 \<and> i \<notin> skipped s' \<longrightarrow>
          d2 ! i = buf s ! i)"

definition local_at :: "'a stream_op \<Rightarrow> MmapCursor \<Rightarrow> bool" where
  "local_at m s \<longleftrightarrow>
     (clean s \<longrightarrow>
      (\<forall>r s'. m s = (r, s') \<longrightarrow>
         steps_to s s' \<and>
         (\<forall>d2. agrees d2 s s' \<longrightarrow> m (s\<lparr>buf := d2\<rparr>) = (r, s'\<lparr>buf := d2\<rparr>))))"

definition reads_to :: "MmapCursor \<Rightarrow> MmapCursor \<Rightarrow> bool" where
  "reads_to s s' \<longleftrightarrow> steps_to s s' \<and> skipped s' = skipped s"

text \<open>What a block operation steps over lies at least two bytes behind the start of the block.\<close>

definition far_skips :: "MmapCursor \<Rightarrow> (error + 'a) \<Rightarrow> MmapCursor \<Rightarrow> bool" where
  "far_skips s r s1 \<longleftrightarrow>
     (\<forall>i\<in>skipped s1. i \<in> skipped s \<or> position s + 2 \<le> i) \<and>
     (\<not> isl r \<longrightarrow> position s + 2 \<le> position s1)"

text \<open>The statements of \<^verbatim>\<open>Gif.__parse_metadata\<close> before the loop, as one operation on the stream.\<close>

definition before_loop ::
  "(GifVersion \<times> LogicalScreenDescriptor \<times> Colortable option) stream_op" where
  "before_loop =
     then_do consume_header (\<lambda>v.
     then_do consume_screen_descriptor (\<lambda>lsd.
     then_do (if LogicalScreenDescriptor.colortable_exists lsd
              then then_do (consume_color_table (LogicalScreenDescriptor_num_colors lsd))
                     (\<lambda>table. return (Some table))
              else return None) (\<lambda>table.
       return (v, lsd, table))))"

subsection \<open>Rounds of the dispatch loop\<close>

text \<open>One round of the \<^verbatim>\<open>while\<close> loop that ends in another round: from the values of
  \<^verbatim>\<open>graphic_control\<close> and \<^verbatim>\<open>images\<close> and the cursor before the round to those after it.\<close>

inductive round ::
  "GraphicControlExtension option \<times> GifImage list \<times> MmapCursor \<Rightarrow>
   GraphicControlExtension option \<times> GifImage list \<times> MmapCursor \<Rightarrow> bool" where
  control:
    "check_blocktype s = (Inr EXT_GRAPHIC_CONTROL, s) \<Longrightarrow>
     consume_graphic_control_extension s = (Inr g, s1) \<Longrightarrow>
     round (None, imgs, s) (Some g, imgs, s1)"
| image:
    "check_blocktype s = (Inr IMAGE_DATA, s) \<Longrightarrow>
     GifImage_parse_metadata gc s = (Inr img, s1) \<Longrightarrow>
     round (gc, imgs, s) (None, imgs @ [img], s1)"
| extension:
    "check_blocktype s = (Inr EXT_UNKNOWN, s) \<Longrightarrow>
     skip_extension s = (Inr n, s1) \<Longrightarrow>
     round (gc, imgs, s) (gc, imgs, s1)"

text \<open>A round that skips an unknown extension, from cursor to cursor.\<close>

definition extension_round :: "MmapCursor \<Rightarrow> MmapCursor \<Rightarrow> bool" where
  "extension_round s s1 \<longleftrightarrow>
     check_blocktype s = (Inr EXT_UNKNOWN, s) \<and>
     \<not> isl (fst (skip_extension s)) \<and> snd (skip_extension s) = s1"

text \<open>Header and screen descriptor, a graphic-control block, a comment extension, a second
  graphic-control block and the trailer.\<close>

definition control_comment_control_gif :: "byte list" where
  "control_comment_control_gif =
     [0x47, 0x49, 0x46, 0x38, 0x39, 0x61,
      1, 0, 1, 0, 0, 0, 0,
      0x21, 0xF9, 4, 8, 50, 0, 0, 0,
      0x21, 0xFE, 1, 0x41, 0,
      0x21, 0xF9, 4, 0, 0, 0, 0, 0,
      0x3B]"

section \<open>Properties\<close>

subsection \<open>The dispatch loop\<close>

lemma check_blocktype_variants:
  "check_blocktype s = (Inr bt, s') \<Longrightarrow>
     bt = TRAILER \<or> bt = IMAGE_DATA \<or> bt = EXT_GRAPHIC_CONTROL \<or> bt = EXT_UNKNOWN"
  by (auto simp: check_blocktype_def then_do_def read_def return_def raise_def
           split: list.splits if_splits)

text \<open>The runs of the dispatch loop, one case for each way through its body. The last
  branch of the loop is in no case: the classifier returns none of the block types that lead
  there.\<close>

lemma parse_loop_induct [consumes 1, case_names check_fails trailer duplicate control_fails
    control image_fails image extension_fails extension]:
  assumes run: "parse_loop gc imgs s = (r, s')"
    and check_fails: "\<And>gc imgs s e. check_blocktype s = (Inl e, s) \<Longrightarrow> P gc imgs s (Inl e) s"
    and trailer: "\<And>gc imgs s. check_blocktype s = (Inr TRAILER, s) \<Longrightarrow> P gc imgs s (Inr imgs) s"
    and duplicate: "\<And>g imgs s. check_blocktype s = (Inr EXT_GRAPHIC_CONTROL, s) \<Longrightarrow>
        P (Some g) imgs s (Inl TwoGraphicControlBlocks) s"
    and control_fails: "\<And>imgs s e s1. check_blocktype s = (Inr EXT_GRAPHIC_CONTROL, s) \<Longrightarrow>
        consume_graphic_control_extension s = (Inl e, s1) \<Longrightarrow> P None imgs s (Inl e) s1"
    and control: "\<And>imgs s g s1 r s'. check_blocktype s = (Inr EXT_GRAPHIC_CONTROL, s) \<Longrightarrow>
        consume_graphic_control_extension s = (Inr g, s1) \<Longrightarrow>
        parse_loop (Some g) imgs s1 = (r, s') \<Longrightarrow> P (Some g) imgs s1 r s' \<Longrightarrow>
        P None imgs s r s'"
    and image_fails: "\<And>gc imgs s e s1. check_blocktype s = (Inr IMAGE_DATA, s) \<Longrightarrow>
        GifImage_parse_metadata gc s = (Inl e, s1) \<Longrightarrow> P gc imgs s (Inl e) s1"
    and image: "\<And>gc imgs s img s1 r s'. check_blocktype s = (Inr IMAGE_DATA, s) \<Longrightarrow>
        GifImage_parse_metadata gc s = (Inr img, s1) \<Longrightarrow>
        parse_loop None (imgs @ [img]) s1 = (r, s') \<Longrightarrow> P None (imgs @ [img]) s1 r s' \<Longrightarrow>
        P gc imgs s r s'"
    and extension_fails: "\<And>gc imgs s e s1. check_blocktype s = (Inr EXT_UNKNOWN, s) \<Longrightarrow>
        skip_extension s = (Inl e, s1) \<Longrightarrow> P gc imgs s (Inl e) s1"
    and extension: "\<And>gc imgs s n s1 r s'. check_blocktype s = (Inr EXT_UNKNOWN, s) \<Longrightarrow>
        skip_extension s = (Inr n, s1) \<Longrightarrow>
        parse_loop gc imgs s1 = (r, s') \<Longrightarrow> P gc imgs s1 r s' \<Longrightarrow>
        P gc imgs s r s'"
  shows "P gc imgs s r s'"
  using run
proof (induction gc imgs s rule: parse_loop.induct)
  case (1 gc imgs s)
  obtain rb sb where cb0: "check_blocktype s = (rb, sb)" by (cases "check_blocktype s")
  then have sb: "sb = s" by (rule check_blocktype_state)
  note cb = cb0 [unfolded sb]
  show ?case
  proof (cases rb)
    case (Inl e)
    with "1.prems" cb check_fails [of s e gc imgs] show ?thesis
      by (simp add: parse_loop.simps [of gc imgs s])
  next
    case (Inr bt)
    note ih = "1.IH" [OF cb [symmetric] Inr]
    from check_blocktype_variants cb Inr
    consider "bt = TRAILER" | "bt = IMAGE_DATA" | "bt = EXT_GRAPHIC_CONTROL" | "bt = EXT_UNKNOWN"
      by blast
    then show ?thesis
    proof cases
      case 1
      with "1.prems" cb Inr trailer [of s gc imgs] show ?thesis
        by (simp add: parse_loop.simps [of gc imgs s])
    next
      case 2
      obtain ri si where gi: "GifImage_parse_metadata gc s = (ri, si)"
        by (cases "GifImage_parse_metadata gc s")
      show ?thesis
      proof (cases ri)
        case (Inl e)
        with "1.prems" cb Inr 2 gi image_fails [of s gc e si imgs] show ?thesis
          by (simp add: parse_loop.simps [of gc imgs s])
      next
        case img: (Inr img)
        with "1.prems" cb Inr 2 gi have rest: "parse_loop None (imgs @ [img]) si = (r, s')"
          by (simp add: parse_loop.simps [of gc imgs s])
        from ih(1) [OF 2 gi [symmetric] img rest] have "P None (imgs @ [img]) si r s'" .
        with cb Inr 2 gi img rest show ?thesis
          by (auto intro: image)
      qed
    next
      case 3
      show ?thesis
      proof (cases gc)
        case (Some g)
        with "1.prems" cb Inr 3 duplicate [of s g imgs] show ?thesis
          by (simp add: parse_loop.simps [of "Some g" imgs s])
      next
        case None
        obtain rg sg where cg: "consume_graphic_control_extension s = (rg, sg)"
          by (cases "consume_graphic_control_extension s")
        show ?thesis
        proof (cases rg)
          case (Inl e)
          with "1.prems" cb Inr 3 None cg control_fails [of s e sg imgs] show ?thesis
            by (simp add: parse_loop.simps [of None imgs s])
        next
          case g: (Inr g)
          with "1.prems" cb Inr 3 None cg have rest: "parse_loop (Some g) imgs sg = (r, s')"
            by (simp add: parse_loop.simps [of None imgs s])
          from ih(2) [OF 3 None cg [symmetric] g rest] have "P (Some g) imgs sg r s'" .
          with cb Inr 3 None cg g rest show ?thesis
            by (auto intro: control)
        qed
      qed
    next
      case 4
      obtain re se where se: "skip_extension s = (re, se)"
        by (cases "skip_extension s")
      show ?thesis
      proof (cases re)
        case (Inl e)
        with "1.prems" cb Inr 4 se extension_fails [of s e se gc imgs] show ?thesis
          by (simp add: parse_loop.simps [of gc imgs s])
      next
        case n: (Inr n)
        with "1.prems" cb Inr 4 se have rest: "parse_loop gc imgs se = (r, s')"
          by (simp add: parse_loop.simps [of gc imgs s])
        from ih(3) [OF 4 se [symmetric] n rest] have "P gc imgs se r s'" .
        with cb Inr 4 se n rest show ?thesis
          by (auto intro: extension)
      qed
    qed
  qed
qed

lemma consume_graphic_control_extension_steps:
  "consume_graphic_control_extension s = (r, s') \<Longrightarrow> steps_to s s'"
  unfolding consume_graphic_control_extension_def
  by (erule then_do_steps advance_steps next_byte_steps next_bytes_steps next_int_steps
        raise_steps return_steps
      | drule DisposalMethod_of_value_steps | simp split: if_splits)+

lemma skip_extension_steps: "skip_extension s = (r, s') \<Longrightarrow> steps_to s s'"
  unfolding skip_extension_def
  by (erule then_do_steps advance_steps next_byte_steps skip_data_steps raise_steps
      | simp split: if_splits)+

lemma parse_loop_steps: "parse_loop gc imgs s = (r, s') \<Longrightarrow> steps_to s s'"
  by (induction rule: parse_loop_induct)
    (auto dest: GifImage_parse_metadata_steps consume_graphic_control_extension_steps
       skip_extension_steps steps_to_trans)

subsection \<open>Packed bytes\<close>

lemma drop_bit_and_1: "(drop_bit n (w::byte) AND 1 \<noteq> 0) = bit w n"
  by (simp add: and_one_eq bit_iff_odd_drop_bit odd_iff_mod_2_eq_one)

lemma and_1_bit: "((w::byte) AND 1 \<noteq> 0) = bit w 0"
  by (simp add: and_one_eq bit_0 odd_iff_mod_2_eq_one)

subsection \<open>Header and screen descriptor on given bytes\<close>

lemma ascii_GIF: "map (\<lambda>b. char_of (unat b)) [0x47, 0x49, 0x46 :: byte] = ''GIF''"
  by code_simp

lemma ascii_89a: "map (\<lambda>b. char_of (unat b)) [0x38, 0x39, 0x61 :: byte] = ''89a''"
  by code_simp

lemma consume_header_GIF89a:
  "consume_header \<lparr>buf = 0x47 # 0x49 # 0x46 # 0x38 # 0x39 # 0x61 # rest,
                    position = 0, closed = c, skipped = k\<rparr> =
   (Inr GIF89a, \<lparr>buf = 0x47 # 0x49 # 0x46 # 0x38 # 0x39 # 0x61 # rest,
                  position = 6, closed = c, skipped = k\<rparr>)"
  by (simp add: consume_header_def then_do_def next_ascii_def next_bytes_def return_def
        raise_def VALID_GIF_REVS_def GIF_87a_def GIF_89a_def
        ascii_GIF [simplified] ascii_89a [simplified])

lemma consume_screen_descriptor_bytes:
  "length pre = p \<Longrightarrow>
   consume_screen_descriptor
     \<lparr>buf = pre @ w0 # w1 # h0 # h1 # packed # bg # par # rest,
      position = p, closed = c, skipped = k\<rparr> =
   (Inr \<lparr>LogicalScreenDescriptor.width = unat w0 + 256 * unat w1,
         LogicalScreenDescriptor.height = unat h0 + 256 * unat h1,
         LogicalScreenDescriptor.colortable_exists = bit packed 7,
         LogicalScreenDescriptor.color_resolution = unat (drop_bit 4 packed AND 0x7),
         LogicalScreenDescriptor.colortable_is_sorted = bit packed 3,
         LogicalScreenDescriptor.colortable_size = unat (packed AND 0x7),
         LogicalScreenDescriptor.background_color_index = unat bg,
         LogicalScreenDescriptor.pixel_aspect_ratio = unat par\<rparr>,
    \<lparr>buf = pre @ w0 # w1 # h0 # h1 # packed # bg # par # rest,
      position = p + 7, closed = c, skipped = k\<rparr>)"
  by (auto simp: consume_screen_descriptor_def then_do_def next_int_def next_byte_def
        next_bytes_def return_def LogicalScreenDescriptor_init_def drop_bit_and_1 nth_append)

subsection \<open>The stages before the loop\<close>

lemma consume_header_steps: "consume_header s = (r, s') \<Longrightarrow> steps_to s s'"
  unfolding consume_header_def
  by (erule then_do_steps next_ascii_steps raise_steps return_steps | simp split: if_splits)+

lemma consume_screen_descriptor_steps: "consume_screen_descriptor s = (r, s') \<Longrightarrow> steps_to s s'"
  unfolding consume_screen_descriptor_def
  by (erule then_do_steps next_int_steps next_byte_steps return_steps | simp split: if_splits)+

lemma ascii_GIX: "map (\<lambda>b. char_of (unat b)) [0x47, 0x49, 0x58 :: byte] = ''GIX''"
  by code_simp

subsection \<open>The exceptions an operation can raise\<close>

lemma next_bytes_Inl: "next_bytes n s = (Inl e, s') \<Longrightarrow> e = ShortRead"
  by (auto simp: next_bytes_def split: if_splits)

lemma next_byte_Inl: "next_byte s = (Inl e, s') \<Longrightarrow> e = ShortRead"
  by (auto simp: next_byte_def split: if_splits)

lemma next_int_Inl: "next_int n s = (Inl e, s') \<Longrightarrow> e = ShortRead"
  by (auto simp: next_int_def return_def elim!: then_do_cases dest: next_bytes_Inl)

lemma next_ascii_Inl: "next_ascii n s = (Inl e, s') \<Longrightarrow> e = ShortRead"
  by (auto simp: next_ascii_def return_def elim!: then_do_cases dest: next_bytes_Inl)

lemma skip_data_loop_Inl: "skip_data_loop d t s = (Inl e, s') \<Longrightarrow> e = ShortRead"
proof (induction d t s rule: skip_data_loop.induct)
  case (1 d t s)
  then show ?case
    by (auto simp: skip_data_loop.simps [of d t s] advance_over_data_def
          split: if_splits prod.splits sum.splits dest: next_byte_Inl)
qed

lemma skip_data_Inl: "skip_data s = (Inl e, s') \<Longrightarrow> e = ShortRead"
  by (auto simp: skip_data_def elim!: then_do_cases dest: next_byte_Inl skip_data_loop_Inl)

lemma take_3_drop:
  assumes "p + 3 \<le> length xs"
  shows "take 3 (drop p xs) = [xs ! p, xs ! (p + 1), xs ! (p + 2)]"
proof -
  have "drop p xs = xs ! p # drop (Suc p) xs"
    using assms by (simp add: Cons_nth_drop_Suc)
  also have "drop (Suc p) xs = xs ! (p + 1) # drop (Suc (Suc p)) xs"
    using assms by (simp add: Cons_nth_drop_Suc)
  also have "drop (Suc (Suc p)) xs = xs ! (p + 2) # drop (Suc (Suc (Suc p))) xs"
    using assms by (simp add: Cons_nth_drop_Suc)
  finally show ?thesis by simp
qed

lemma color_table_loop_Suc:
  "color_table_loop (Suc n) t s =
     (if position s + 3 \<le> length (buf s)
      then color_table_loop n
             (t @ [(buf s ! position s, buf s ! (position s + 1), buf s ! (position s + 2))])
             (s\<lparr>position := position s + 3\<rparr>)
      else (Inl ShortRead, s))"
  by (simp add: next_bytes_def take_3_drop)

lemma color_table_loop_Inl:
  "color_table_loop n t s = (Inl e, s') \<Longrightarrow> e = ShortRead"
proof (induction n arbitrary: t s)
  case 0
  then show ?case by simp
next
  case (Suc n)
  then show ?case
    unfolding color_table_loop_Suc by (auto split: if_splits)
qed

lemma check_blocktype_Inl:
  "check_blocktype s = (Inl e, s') \<Longrightarrow> e \<noteq> UnexpectedBlocktype"
  by (auto simp: check_blocktype_def then_do_def read_def return_def raise_def
           split: list.splits if_splits)

lemma consume_graphic_control_extension_Inl:
  "consume_graphic_control_extension s = (Inl e, s') \<Longrightarrow> e \<noteq> UnexpectedBlocktype"
  unfolding consume_graphic_control_extension_def
  by (auto simp: raise_def return_def advance_def DisposalMethod_of_value_def
        elim!: then_do_cases dest: next_bytes_Inl next_byte_Inl next_int_Inl split: if_splits)

lemma skip_extension_Inl:
  "skip_extension s = (Inl e, s') \<Longrightarrow> e \<noteq> UnexpectedBlocktype"
  unfolding skip_extension_def
  by (auto simp: raise_def return_def advance_def
        elim!: then_do_cases dest: next_byte_Inl skip_data_Inl split: if_splits)

lemma consume_image_descriptor_Inl:
  "consume_image_descriptor s = (Inl e, s') \<Longrightarrow> e \<noteq> UnexpectedBlocktype"
  unfolding consume_image_descriptor_def
  by (auto simp: raise_def return_def
        elim!: then_do_cases dest: next_byte_Inl next_int_Inl split: if_splits)

lemma GifImage_parse_metadata_Inl:
  "GifImage_parse_metadata gc s = (Inl e, s') \<Longrightarrow> e \<noteq> UnexpectedBlocktype"
  unfolding GifImage_parse_metadata_def skip_image_data_def consume_color_table_def
  by (auto simp: raise_def return_def advance_def
        elim!: then_do_cases
        dest: consume_image_descriptor_Inl color_table_loop_Inl skip_data_Inl
        split: if_splits)

lemma consume_header_Inl:
  "consume_header s = (Inl e, s') \<Longrightarrow> e \<noteq> UnexpectedBlocktype"
  unfolding consume_header_def
  by (auto simp: raise_def return_def elim!: then_do_cases dest: next_ascii_Inl split: if_splits)

lemma consume_screen_descriptor_Inl:
  "consume_screen_descriptor s = (Inl e, s') \<Longrightarrow> e \<noteq> UnexpectedBlocktype"
  unfolding consume_screen_descriptor_def
  by (auto simp: raise_def return_def
        elim!: then_do_cases dest: next_byte_Inl next_int_Inl split: if_splits)

lemma parse_loop_Inl:
  "parse_loop gc imgs s = (r, s') \<Longrightarrow> r \<noteq> Inl UnexpectedBlocktype"
  by (induction rule: parse_loop_induct)
    (auto dest: check_blocktype_Inl consume_graphic_control_extension_Inl
       GifImage_parse_metadata_Inl skip_extension_Inl)

subsection \<open>The skip loop on a chain of sub-blocks\<close>

lemma length_sub_blocks: "length (sub_blocks cs) = sum_list (map length cs) + length cs + 1"
  by (induction cs) auto

lemma skip_data_next:
  "skip_data s =
     (case next_byte s of
        (Inl e, s1) \<Rightarrow> (Inl e, s1)
      | (Inr b, s1) \<Rightarrow> skip_data_loop (unat b) (0 + unat b) s1)"
  by (simp add: skip_data_def then_do_def split: prod.splits sum.splits)

lemma skip_data_loop_chain:
  assumes "\<forall>c\<in>set cs. 0 < length c \<and> length c < 256"
    and "buf s = pre @ sub_blocks cs @ rest"
    and "position s = length pre"
  shows "(case next_byte s of
            (Inl e, s1) \<Rightarrow> (Inl e, s1)
          | (Inr b, s1) \<Rightarrow> skip_data_loop (unat b) (t + unat b) s1) =
         (Inr (t + sum_list (map length cs)),
          s\<lparr>position := length pre + length (sub_blocks cs),
            skipped := skipped s \<union> payload_offsets (length pre) cs\<rparr>)"
  using assms
proof (induction cs arbitrary: pre s t)
  case Nil
  then show ?case
    by (simp add: next_byte_def skip_data_loop.simps [of 0])
next
  case (Cons c cs)
  let ?d = "length c"
  have d: "0 < ?d" "?d < 256" using Cons.prems(1) by auto
  then have un: "unat (of_nat ?d :: byte) = ?d"
    by (simp add: unat_of_nat)
  let ?s1 = "s\<lparr>position := length pre + 1\<rparr>"
  have nb: "next_byte s = (Inr (of_nat ?d), ?s1)"
    using Cons.prems(2,3) by (simp add: next_byte_def)
  let ?s2 = "s\<lparr>position := length pre + 1 + ?d,
                 skipped := skipped s \<union> {length pre + 1 ..< length pre + 1 + ?d}\<rparr>"
  have adv: "advance_over_data ?d ?s1 = (Inr (), ?s2)"
    by (simp add: advance_over_data_def)
  let ?pre = "pre @ of_nat ?d # c"
  have ih: "(case next_byte ?s2 of
            (Inl e, s1) \<Rightarrow> (Inl e, s1)
          | (Inr b, s1) \<Rightarrow> skip_data_loop (unat b) ((t + ?d) + unat b) s1) =
         (Inr ((t + ?d) + sum_list (map length cs)),
          ?s2\<lparr>position := length ?pre + length (sub_blocks cs),
            skipped := skipped ?s2 \<union> payload_offsets (length ?pre) cs\<rparr>)"
    using Cons.prems by (intro Cons.IH) auto
  have "skip_data_loop ?d (t + ?d) ?s1 =
          (case next_byte ?s2 of
            (Inl e, s1) \<Rightarrow> (Inl e, s1)
          | (Inr b, s1) \<Rightarrow> skip_data_loop (unat b) ((t + ?d) + unat b) s1)"
    by (subst skip_data_loop.simps) (use d adv in simp)
  with nb un ih show ?case
    by (simp add: Un_assoc add.assoc)
qed

subsection \<open>Colour tables and size codes\<close>

lemma rgb_triples_Suc:
  "rgb_triples d p (Suc n) = (d ! p, d ! (p + 1), d ! (p + 2)) # rgb_triples d (p + 3) n"
proof -
  have "[0..<Suc n] = 0 # map Suc [0..<n]"
    by (simp add: upt_conv_Cons map_Suc_upt del: upt_Suc)
  then show ?thesis
    by (simp add: rgb_triples_def comp_def add.assoc del: upt_Suc)
qed

lemma color_table_loop_Inr:
  "color_table_loop n t s = (Inr t', s') \<Longrightarrow>
     t' = t @ rgb_triples (buf s) (position s) n \<and>
     s' = s\<lparr>position := position s + 3 * n\<rparr> \<and>
     (0 < n \<longrightarrow> position s + 3 * n \<le> length (buf s))"
proof (induction n arbitrary: t s)
  case 0
  then show ?case by (simp add: rgb_triples_def)
next
  case (Suc n)
  from Suc.prems have ok: "position s + 3 \<le> length (buf s)"
    and rest: "color_table_loop n
             (t @ [(buf s ! position s, buf s ! (position s + 1), buf s ! (position s + 2))])
             (s\<lparr>position := position s + 3\<rparr>) = (Inr t', s')"
    unfolding color_table_loop_Suc by (auto split: if_splits)
  from Suc.IH [OF rest] ok show ?case
    by (cases n) (simp_all add: rgb_triples_Suc add.assoc)
qed

lemma and_7_le: "unat ((w :: byte) AND 0x7) \<le> 7"
proof -
  have "unat (w AND 7) \<le> unat (7 :: byte)"
    by (rule word_and_le1 [THEN word_le_nat_alt [THEN iffD1]])
  then show ?thesis by simp
qed

lemma consume_header_Inr:
  "consume_header s = (Inr v, s') \<Longrightarrow> s' = s\<lparr>position := position s + 6\<rparr>"
  unfolding consume_header_def next_ascii_def
  by (auto simp: raise_def return_def elim!: then_do_cases dest!: next_bytes_Inr
        split: if_splits)

lemma consume_screen_descriptor_Inr:
  "consume_screen_descriptor s = (Inr lsd, s') \<Longrightarrow>
     s' = s\<lparr>position := position s + 7\<rparr> \<and> LogicalScreenDescriptor.colortable_size lsd \<le> 7"
  unfolding consume_screen_descriptor_def next_int_def
  by (auto simp: raise_def return_def and_7_le elim!: then_do_cases
        dest!: next_bytes_Inr next_byte_Inr split: if_splits)

lemma consume_image_descriptor_Inr:
  "consume_image_descriptor s = (Inr d, s') \<Longrightarrow>
     s' = s\<lparr>position := position s + 10\<rparr> \<and> ImageDescriptor.colortable_size d \<le> 7"
  unfolding consume_image_descriptor_def next_int_def
  by (auto simp: raise_def return_def and_7_le elim!: then_do_cases
        dest!: next_bytes_Inr next_byte_Inr split: if_splits)

lemma length_rgb_triples [simp]: "length (rgb_triples d p n) = n"
  by (simp add: rgb_triples_def)

lemma GifImage_parse_metadata_table:
  assumes "GifImage_parse_metadata gc s = (Inr img, s')"
  shows "local_table_fits (buf s) img"
proof -
  from assms obtain desc s1 table s2 n s3
    where d: "consume_image_descriptor s = (Inr desc, s1)"
      and t: "(if ImageDescriptor.colortable_exists desc
              then then_do (consume_color_table (ImageDescriptor_num_colors desc))
                     (\<lambda>table. return (Some table))
              else return None) s1 = (Inr table, s2)"
      and img: "img = \<lparr>graphic_control = gc, GifImage.colortable = table,
               image_descriptor = desc, image_data_size = n\<rparr>"
    unfolding GifImage_parse_metadata_def
    by (auto elim!: then_do_InrE simp: return_def)
  from consume_image_descriptor_Inr [OF d]
  have s1: "buf s1 = buf s" and size: "ImageDescriptor.colortable_size desc \<le> 7"
    by auto
  show ?thesis
  proof (cases "ImageDescriptor.colortable_exists desc")
    case False
    with t img size show ?thesis
      by (simp add: local_table_fits_def return_def)
  next
    case True
    with t obtain tb where tb: "consume_color_table (ImageDescriptor_num_colors desc) s1 = (Inr tb, s2)"
      and table: "table = Some tb"
      by (auto elim!: then_do_InrE simp: return_def)
    from color_table_loop_Inr [OF tb [unfolded consume_color_table_def]] s1
    have "tb = rgb_triples (buf s) (position s1) (ImageDescriptor_num_colors desc)"
      and "position s1 + 3 * ImageDescriptor_num_colors desc \<le> length (buf s)"
      by (auto simp: ImageDescriptor_num_colors_def)
    with True img size table show ?thesis
      by (auto simp: local_table_fits_def)
  qed
qed

lemma parse_loop_tables:
  "parse_loop gc imgs s = (r, s') \<Longrightarrow> \<forall>img\<in>set imgs. local_table_fits (buf s) img \<Longrightarrow>
     r = Inr imgs' \<Longrightarrow> \<forall>img\<in>set imgs'. local_table_fits (buf s) img"
proof (induction arbitrary: imgs' rule: parse_loop_induct)
  case (control imgs s g s1 r s')
  then show ?case
    using consume_graphic_control_extension_steps [of s _ s1] by (simp add: steps_to_def)
next
  case (image gc imgs s img s1 r s')
  then show ?case
    using GifImage_parse_metadata_steps [of gc s _ s1] GifImage_parse_metadata_table [of gc s img s1]
    by (simp add: steps_to_def)
next
  case (extension gc imgs s n s1 r s')
  then show ?case
    using skip_extension_steps [of s _ s1] by (simp add: steps_to_def)
qed auto

subsection \<open>Running the parse on given bytes\<close>

lemma color_table_loop_numeral:
  "color_table_loop (numeral k) t s = color_table_loop (Suc (pred_numeral k)) t s"
  by (simp add: numeral_eq_Suc)

lemmas gif_eval =
  Gif_parse_metadata_def GifStream_init_def MmapCursor_init_def consume_header_def
  consume_screen_descriptor_def consume_color_table_def consume_image_descriptor_def
  consume_graphic_control_extension_def check_blocktype_def skip_data_def skip_image_data_def
  skip_extension_def GifImage_parse_metadata_def parse_loop.simps skip_data_loop.simps
  then_do_def return_def raise_def next_bytes_def next_byte_def next_int_def next_ascii_def
  read_def advance_def advance_over_data_def close_def
  LogicalScreenDescriptor_init_def ImageDescriptor_init_def GraphicControlExtension_init_def
  LogicalScreenDescriptor_num_colors_def ImageDescriptor_num_colors_def
  DisposalMethod_of_value_def
  EXT_INTRODUCER_def EXT_GRAPHIC_CONTROL_LABEL_def TRAILER_LABEL_def IMAGE_SEPARATOR_def
  VALID_GIF_REVS_def GIF_87a_def GIF_89a_def
  ascii_GIF [simplified] ascii_89a [simplified] color_table_loop_numeral

lemma two_table_gif_parsed:
  "Gif_parse_metadata two_table_gif =
     (Inr \<lparr>version = GIF89a, Gif.colortable = Some [(1, 2, 3), (4, 5, 6)],
           logical_screen_descriptor =
             \<lparr>LogicalScreenDescriptor.width = 1,
              LogicalScreenDescriptor.height = 1,
              LogicalScreenDescriptor.colortable_exists = True,
              LogicalScreenDescriptor.color_resolution = 0,
              LogicalScreenDescriptor.colortable_is_sorted = False,
              LogicalScreenDescriptor.colortable_size = 0,
              LogicalScreenDescriptor.background_color_index = 0,
              LogicalScreenDescriptor.pixel_aspect_ratio = 0\<rparr>,
           images =
             [\<lparr>graphic_control = None,
               GifImage.colortable = Some [(7, 8, 9), (10, 11, 12)],
               image_descriptor =
                 \<lparr>leftpos = 0, toppos = 0, ImageDescriptor.width = 1,
                  ImageDescriptor.height = 1, interlace = False,
                  ImageDescriptor.colortable_exists = True,
                  ImageDescriptor.colortable_is_sorted = False,
                  ImageDescriptor.colortable_size = 0,
                  interlaced = Some False\<rparr>,
               image_data_size = 1\<rparr>]\<rparr>,
      \<lparr>buf = two_table_gif, position = 39, closed = True, skipped = {37}\<rparr>,
      [])"
  unfolding two_table_gif_def
  by (simp add: gif_eval)

subsection \<open>An operation reads only what it consumes\<close>

lemma clean_steps: "clean s \<Longrightarrow> steps_to s s' \<Longrightarrow> clean s'"
  unfolding clean_def steps_to_def by fastforce

lemma agrees_first:
  assumes "agrees d2 s s'" "steps_to s s1" "steps_to s1 s'"
  shows "agrees d2 s s1"
  using assms unfolding agrees_def steps_to_def
  by (metis leD order_less_le_trans)

lemma agrees_rest:
  assumes "agrees d2 s s'" "steps_to s s1"
  shows "agrees d2 s1 s'"
  using assms unfolding agrees_def steps_to_def by auto

lemma local_return: "local_at (return x) s"
  by (simp add: local_at_def return_def)

lemma local_raise: "local_at (raise e) s"
  by (simp add: local_at_def raise_def)

lemma local_advance: "local_at (advance n) s"
  by (auto simp: local_at_def advance_def steps_to_def)

lemma local_advance_over_data: "local_at (advance_over_data n) s"
  by (auto simp: local_at_def advance_over_data_def steps_to_def)

lemma local_DisposalMethod_of_value: "local_at (DisposalMethod_of_value n) s"
  by (auto simp: local_at_def DisposalMethod_of_value_def return_def raise_def)

lemma local_next_byte: "local_at next_byte s"
  unfolding local_at_def
proof (intro impI allI conjI)
  fix r s' assume "clean s" and run: "next_byte s = (r, s')"
  from run show "steps_to s s'" by (rule next_byte_steps)
  fix d2 assume a: "agrees d2 s s'"
  show "next_byte (s\<lparr>buf := d2\<rparr>) = (r, s'\<lparr>buf := d2\<rparr>)"
  proof (cases "position s < length (buf s)")
    case True
    with run have s': "s' = s\<lparr>position := position s + 1\<rparr>" and r: "r = Inr (buf s ! position s)"
      by (auto simp: next_byte_def)
    from \<open>clean s\<close> s' have "position s \<notin> skipped s'"
      by (auto simp: clean_def)
    with a True s' have "d2 ! position s = buf s ! position s"
      by (simp add: agrees_def)
    with a True s' r show ?thesis
      by (simp add: next_byte_def agrees_def)
  next
    case False
    with run a show ?thesis
      by (auto simp: next_byte_def agrees_def)
  qed
qed

lemma local_next_bytes: "local_at (next_bytes n) s"
  unfolding local_at_def
proof (intro impI allI conjI)
  fix r s' assume "clean s" and run: "next_bytes n s = (r, s')"
  from run show "steps_to s s'" by (rule next_bytes_steps)
  fix d2 assume a: "agrees d2 s s'"
  show "next_bytes n (s\<lparr>buf := d2\<rparr>) = (r, s'\<lparr>buf := d2\<rparr>)"
  proof (cases "position s + n \<le> length (buf s)")
    case True
    with run have s': "s' = s\<lparr>position := position s + n\<rparr>"
      and r: "r = Inr (take n (drop (position s) (buf s)))"
      by (auto simp: next_bytes_def)
    have "take n (drop (position s) d2) = take n (drop (position s) (buf s))"
    proof (rule nth_equalityI)
      show "length (take n (drop (position s) d2)) = length (take n (drop (position s) (buf s)))"
        using a by (simp add: agrees_def)
      fix i assume "i < length (take n (drop (position s) d2))"
      then have i: "i < n" "position s + i < length d2" by auto
      from \<open>clean s\<close> s' have "position s + i \<notin> skipped s'"
        by (auto simp: clean_def)
      with a i s' have "d2 ! (position s + i) = buf s ! (position s + i)"
        by (simp add: agrees_def)
      with i a show "take n (drop (position s) d2) ! i = take n (drop (position s) (buf s)) ! i"
        by (simp add: agrees_def)
    qed
    with a True s' r show ?thesis
      by (simp add: next_bytes_def agrees_def)
  next
    case False
    with run a show ?thesis
      by (auto simp: next_bytes_def agrees_def)
  qed
qed

lemma local_then_do:
  assumes m: "local_at m s"
    and f: "\<And>x s1. m s = (Inr x, s1) \<Longrightarrow> local_at (f x) s1"
  shows "local_at (then_do m f) s"
  unfolding local_at_def
proof (intro impI allI)
  fix r s' assume c: "clean s" and run: "then_do m f s = (r, s')"
  from run show "steps_to s s' \<and>
      (\<forall>d2. agrees d2 s s' \<longrightarrow> then_do m f (s\<lparr>buf := d2\<rparr>) = (r, s'\<lparr>buf := d2\<rparr>))"
  proof (cases rule: then_do_cases)
    case (raised e)
    with m c show ?thesis
      by (auto simp: local_at_def then_do_def)
  next
    case (returned x s1)
    from m c returned(1) have st1: "steps_to s s1"
      and t1: "\<And>d2. agrees d2 s s1 \<Longrightarrow> m (s\<lparr>buf := d2\<rparr>) = (Inr x, s1\<lparr>buf := d2\<rparr>)"
      by (auto simp: local_at_def)
    from c st1 have c1: "clean s1" by (rule clean_steps)
    from f [OF returned(1)] c1 returned(2) have st2: "steps_to s1 s'"
      and t2: "\<And>d2. agrees d2 s1 s' \<Longrightarrow> f x (s1\<lparr>buf := d2\<rparr>) = (r, s'\<lparr>buf := d2\<rparr>)"
      by (auto simp: local_at_def)
    show ?thesis
    proof (intro conjI allI impI)
      show "steps_to s s'" using st1 st2 by (rule steps_to_trans)
      fix d2 assume a: "agrees d2 s s'"
      from a st1 st2 have "agrees d2 s s1" by (rule agrees_first)
      then have "m (s\<lparr>buf := d2\<rparr>) = (Inr x, s1\<lparr>buf := d2\<rparr>)" by (rule t1)
      moreover from a st1 have "agrees d2 s1 s'" by (rule agrees_rest)
      then have "f x (s1\<lparr>buf := d2\<rparr>) = (r, s'\<lparr>buf := d2\<rparr>)" by (rule t2)
      ultimately show "then_do m f (s\<lparr>buf := d2\<rparr>) = (r, s'\<lparr>buf := d2\<rparr>)"
        by (simp add: then_do_def)
    qed
  qed
qed

lemma local_if:
  "(c \<Longrightarrow> local_at a s) \<Longrightarrow> (\<not> c \<Longrightarrow> local_at b s) \<Longrightarrow> local_at (if c then a else b) s"
  by simp

lemmas local_intros =
  local_then_do local_if local_return local_raise local_advance local_advance_over_data
  local_DisposalMethod_of_value local_next_byte local_next_bytes

lemma local_next_int: "local_at (next_int n) s"
  unfolding next_int_def by (intro local_intros)

lemma local_next_ascii: "local_at (next_ascii n) s"
  unfolding next_ascii_def by (intro local_intros)

lemma local_consume_header: "local_at consume_header s"
  unfolding consume_header_def by (intro local_intros local_next_ascii)

lemma local_consume_screen_descriptor: "local_at consume_screen_descriptor s"
  unfolding consume_screen_descriptor_def by (intro local_intros local_next_int)

lemma local_consume_image_descriptor: "local_at consume_image_descriptor s"
  unfolding consume_image_descriptor_def by (intro local_intros local_next_int)

lemma local_consume_graphic_control_extension: "local_at consume_graphic_control_extension s"
  unfolding consume_graphic_control_extension_def by (intro local_intros local_next_int)

lemma skip_data_loop_then_do:
  "skip_data_loop d t =
     (if d \<noteq> 0
      then then_do (advance_over_data d) (\<lambda>_.
           then_do next_byte (\<lambda>b. skip_data_loop (unat b) (t + unat b)))
      else return t)"
  by (rule ext, subst skip_data_loop.simps)
     (simp add: then_do_def return_def split: prod.splits sum.splits)

lemma local_skip_data_loop: "local_at (skip_data_loop d t) s"
proof (induction d t s rule: skip_data_loop.induct)
  case (1 d t s)
  show ?case
    apply (subst skip_data_loop_then_do)
    apply (intro local_intros)
    apply (rule "1.IH")
        apply (assumption | rule refl | erule sym)+
    done
qed

lemma local_skip_data: "local_at skip_data s"
  unfolding skip_data_def by (intro local_intros local_skip_data_loop)

lemma local_skip_image_data: "local_at skip_image_data s"
  unfolding skip_image_data_def by (intro local_intros local_skip_data)

lemma local_skip_extension: "local_at skip_extension s"
  unfolding skip_extension_def by (intro local_intros local_skip_data)

lemma color_table_loop_then_do:
  "color_table_loop (Suc n) t =
     then_do (next_bytes 3) (\<lambda>bs.
       case bs of
         [r, g, b] \<Rightarrow> color_table_loop n (t @ [(r, g, b)])
       | _ \<Rightarrow> raise (ValueError (length bs)))"
  by (rule ext) (simp add: then_do_def raise_def split: prod.splits sum.splits list.splits)

lemma local_color_table_loop: "local_at (color_table_loop n t) s"
proof (induction n arbitrary: t s)
  case 0
  have "color_table_loop 0 t = return t"
    by (rule ext) (simp add: return_def)
  then show ?case by (simp add: local_return)
next
  case (Suc n)
  show ?case
    unfolding color_table_loop_then_do
    by (intro local_intros) (auto split: list.splits intro: Suc.IH local_raise)
qed

lemma local_consume_color_table: "local_at (consume_color_table n) s"
  unfolding consume_color_table_def by (rule local_color_table_loop)

lemma local_GifImage_parse_metadata: "local_at (GifImage_parse_metadata gc) s"
  unfolding GifImage_parse_metadata_def
  by (intro local_intros local_consume_image_descriptor local_consume_color_table
        local_skip_image_data)

lemma reads_to_refl [simp]: "reads_to s s"
  by (simp add: reads_to_def)

lemma reads_to_trans: "reads_to s s1 \<Longrightarrow> reads_to s1 s2 \<Longrightarrow> reads_to s s2"
  by (auto simp: reads_to_def intro: steps_to_trans)

lemma then_do_reads:
  assumes "then_do m f s = (r, s')"
    and "\<And>r1 s1. m s = (r1, s1) \<Longrightarrow> reads_to s s1"
    and "\<And>x s1. m s = (Inr x, s1) \<Longrightarrow> f x s1 = (r, s') \<Longrightarrow> reads_to s1 s'"
  shows "reads_to s s'"
  using assms(1)
proof (cases rule: then_do_cases)
  case (raised e) then show ?thesis using assms(2) by blast
next
  case (returned x s1) then show ?thesis using assms(2,3) reads_to_trans by blast
qed

lemma next_bytes_reads: "next_bytes n s = (r, s') \<Longrightarrow> reads_to s s'"
  by (auto simp: next_bytes_def steps_to_def reads_to_def split: if_splits)

lemma next_byte_reads: "next_byte s = (r, s') \<Longrightarrow> reads_to s s'"
  by (auto simp: next_byte_def steps_to_def reads_to_def split: if_splits)

lemma return_reads: "return x s = (r, s') \<Longrightarrow> reads_to s s'"
  by (auto simp: return_def)

lemma raise_reads: "raise e s = (r, s') \<Longrightarrow> reads_to s s'"
  by (auto simp: raise_def)

lemma advance_reads: "advance n s = (r, s') \<Longrightarrow> reads_to s s'"
  by (auto simp: advance_def steps_to_def reads_to_def)

lemma next_int_reads: "next_int n s = (r, s') \<Longrightarrow> reads_to s s'"
  unfolding next_int_def
  by (erule then_do_reads) (auto dest: next_bytes_reads return_reads)

lemma consume_image_descriptor_reads:
  "consume_image_descriptor s = (r, s') \<Longrightarrow> reads_to s s'"
  unfolding consume_image_descriptor_def
  by (erule then_do_reads next_byte_reads next_int_reads return_reads raise_reads
        | simp split: if_splits)+

lemma consume_graphic_control_extension_reads:
  "consume_graphic_control_extension s = (r, s') \<Longrightarrow> reads_to s s'"
  unfolding consume_graphic_control_extension_def
  by (erule then_do_reads advance_reads next_byte_reads next_bytes_reads next_int_reads
        raise_reads return_reads
      | drule DisposalMethod_of_value_steps | simp split: if_splits)+

lemma far_skips_reads:
  assumes "reads_to s s1" "\<not> isl r \<Longrightarrow> position s + 2 \<le> position s1"
  shows "far_skips s r s1"
  using assms unfolding far_skips_def reads_to_def by simp

lemma far_skips_raised:
  assumes "reads_to s s1"
  shows "far_skips s (Inl e) s1"
  using assms by (rule far_skips_reads) simp

lemma far_skips_after:
  assumes "reads_to s sa" "position s + 2 \<le> position sa" "steps_to sa s1"
  shows "far_skips s r s1"
proof -
  from assms have a: "skipped sa = skipped s" "position s + 2 \<le> position sa"
    "position sa \<le> position s1"
    "\<forall>i\<in>skipped s1. i \<in> skipped sa \<or> (position sa \<le> i \<and> i < position s1)"
    by (simp_all add: reads_to_def steps_to_def)
  have "i \<in> skipped s \<or> position s + 2 \<le> i" if "i \<in> skipped s1" for i
  proof -
    from that a(4) have "i \<in> skipped sa \<or> position sa \<le> i" by blast
    with a(1,2) show ?thesis by (elim disjE) simp_all
  qed
  moreover from a(2,3) have "position s + 2 \<le> position s1" by (rule le_trans)
  ultimately show ?thesis by (simp add: far_skips_def)
qed

lemma consume_graphic_control_extension_Inr:
  assumes "consume_graphic_control_extension s = (Inr g, s')"
  shows "position s + 2 \<le> position s'"
  using assms unfolding consume_graphic_control_extension_def
  apply (erule_tac then_do_InrE)
  subgoal premises prems for x sa
  proof -
    from prems(1) have sa: "position sa = position s + 2"
      by (auto dest: next_bytes_Inr)
    from prems(2) have "steps_to sa s'"
      by - (erule then_do_steps advance_steps next_byte_steps next_int_steps raise_steps
            return_steps
          | drule DisposalMethod_of_value_steps | simp split: if_splits)+
    with sa show ?thesis by (simp add: steps_to_def)
  qed
  done

lemma consume_graphic_control_extension_far:
  assumes "consume_graphic_control_extension s = (r, s1)"
  shows "far_skips s r s1"
proof (rule far_skips_reads)
  show "reads_to s s1" using assms by (rule consume_graphic_control_extension_reads)
  assume "\<not> isl r"
  then obtain g where "r = Inr g" by (cases r) simp_all
  with assms have "consume_graphic_control_extension s = (Inr g, s1)" by simp
  then show "position s + 2 \<le> position s1"
    by (rule consume_graphic_control_extension_Inr)
qed

lemma GifImage_parse_metadata_far:
  assumes "GifImage_parse_metadata gc s = (r, s1)"
  shows "far_skips s r s1"
  using assms unfolding GifImage_parse_metadata_def
proof (cases rule: then_do_cases)
  case (raised e)
  from raised(1) have "reads_to s s1" by (rule consume_image_descriptor_reads)
  with raised(2) show ?thesis by (simp add: far_skips_raised)
next
  case (returned d sa)
  from returned(1) have "reads_to s sa" by (rule consume_image_descriptor_reads)
  moreover from consume_image_descriptor_Inr [OF returned(1)]
  have "position s + 2 \<le> position sa" by simp
  moreover from returned(2) have "steps_to sa s1"
    by - (erule then_do_steps consume_color_table_steps skip_image_data_steps return_steps
        | simp split: if_splits)+
  ultimately show ?thesis by (rule far_skips_after)
qed

lemma skip_extension_far:
  assumes "skip_extension s = (r, s1)"
  shows "far_skips s r s1"
  using assms unfolding skip_extension_def
proof (cases rule: then_do_cases)
  case (raised e)
  from raised(1) have "reads_to s s1" by (rule next_byte_reads)
  with raised(2) show ?thesis by (simp add: far_skips_raised)
next
  case (returned b sa)
  from returned(1) have sa: "reads_to s sa" by (rule next_byte_reads)
  from next_byte_Inr [OF returned(1)] have pos: "position sa = position s + 1" by simp
  show ?thesis
  proof (cases "b \<noteq> EXT_INTRODUCER")
    case True
    with returned(2) have "r = Inl (UnexpectedExtensionByte b)" "s1 = sa"
      by (simp_all add: raise_def)
    with sa show ?thesis by (simp add: far_skips_raised)
  next
    case False
    with returned(2) have "then_do (advance 1) (\<lambda>_. skip_data) sa = (r, s1)" by simp
    then have sd: "skip_data (sa\<lparr>position := position sa + 1\<rparr>) = (r, s1)"
      by (simp add: then_do_def advance_def)
    have "reads_to sa (sa\<lparr>position := position sa + 1\<rparr>)"
      by (simp add: reads_to_def steps_to_def)
    with sa have "reads_to s (sa\<lparr>position := position sa + 1\<rparr>)"
      by (rule reads_to_trans)
    moreover have "position s + 2 \<le> position (sa\<lparr>position := position sa + 1\<rparr>)"
      using pos by simp
    moreover from sd have "steps_to (sa\<lparr>position := position sa + 1\<rparr>) s1"
      by (rule skip_data_steps)
    ultimately show ?thesis by (rule far_skips_after)
  qed
qed

lemma check_blocktype_transfer:
  assumes len: "length d2 = length (buf s)"
    and same: "\<forall>i. position s \<le> i \<and> i < position s + 2 \<and> i < length d2 \<longrightarrow> d2 ! i = buf s ! i"
  shows "check_blocktype (s\<lparr>buf := d2\<rparr>) = (fst (check_blocktype s), s\<lparr>buf := d2\<rparr>)"
proof -
  have eq: "take 2 (drop (position s) d2) = take 2 (drop (position s) (buf s))"
  proof (rule nth_equalityI)
    show "length (take 2 (drop (position s) d2)) = length (take 2 (drop (position s) (buf s)))"
      using len by simp
    fix i assume "i < length (take 2 (drop (position s) d2))"
    then have i: "i < 2" "position s + i < length d2" by auto
    with same have "d2 ! (position s + i) = buf s ! (position s + i)" by simp
    with i len show "take 2 (drop (position s) d2) ! i = take 2 (drop (position s) (buf s)) ! i"
      by simp
  qed
  show ?thesis
    unfolding check_blocktype_def then_do_def read_def
    apply (simp add: eq)
    apply (auto simp: return_def raise_def split: list.splits)
    done
qed

lemma global_agrees:
  assumes len: "length d2 = length (buf s)"
    and hyp: "\<forall>i<length d2. i \<notin> skipped sf \<longrightarrow> d2 ! i = buf s ! i"
    and st: "steps_to s' sf"
  shows "agrees d2 s s'"
  unfolding agrees_def
proof (intro conjI allI impI)
  show "length d2 = length (buf s)" by (rule len)
  fix i assume i: "position s \<le> i \<and> i < position s' \<and> i < length d2 \<and> i \<notin> skipped s'"
  have "i \<notin> skipped sf"
  proof
    assume "i \<in> skipped sf"
    with st have "i \<in> skipped s' \<or> position s' \<le> i"
      unfolding steps_to_def by blast
    with i show False by auto
  qed
  with hyp i show "d2 ! i = buf s ! i" by simp
qed

lemma peek_agrees:
  assumes c: "clean s"
    and far: "far_skips s r1 s1"
    and st: "steps_to s1 sf"
    and err: "isl r1 \<Longrightarrow> sf = s1"
    and hyp: "\<forall>i<length d2. i \<notin> skipped sf \<longrightarrow> d2 ! i = buf s ! i"
  shows "\<forall>i. position s \<le> i \<and> i < position s + 2 \<and> i < length d2 \<longrightarrow> d2 ! i = buf s ! i"
proof (intro allI impI)
  fix i assume i: "position s \<le> i \<and> i < position s + 2 \<and> i < length d2"
  have not_s1: "i \<notin> skipped s1"
  proof
    assume "i \<in> skipped s1"
    with far have "i \<in> skipped s \<or> position s + 2 \<le> i"
      unfolding far_skips_def by blast
    with c i show False by (auto simp: clean_def)
  qed
  have "i \<notin> skipped sf"
  proof (cases "isl r1")
    case True
    with err not_s1 show ?thesis by simp
  next
    case False
    with far have far2: "position s + 2 \<le> position s1"
      unfolding far_skips_def by simp
    show ?thesis
    proof
      assume "i \<in> skipped sf"
      with st have "i \<in> skipped s1 \<or> position s1 \<le> i"
        unfolding steps_to_def by blast
      with not_s1 far2 i show False by auto
    qed
  qed
  with hyp i show "d2 ! i = buf s ! i" by simp
qed

lemma peek_agrees_here:
  assumes c: "clean s"
    and hyp: "\<forall>i<length d2. i \<notin> skipped s \<longrightarrow> d2 ! i = buf s ! i"
  shows "\<forall>i. position s \<le> i \<and> i < position s + 2 \<and> i < length d2 \<longrightarrow> d2 ! i = buf s ! i"
proof (intro allI impI)
  fix i assume i: "position s \<le> i \<and> i < position s + 2 \<and> i < length d2"
  with c have "i \<notin> skipped s" by (auto simp: clean_def)
  with hyp i show "d2 ! i = buf s ! i" by simp
qed

lemma block_transfer:
  assumes run: "block s = (r1, s1)"
    and loc: "local_at block s"
    and far: "far_skips s r1 s1"
    and c: "clean s"
    and st: "steps_to s1 sf"
    and err: "isl r1 \<Longrightarrow> sf = s1"
    and len: "length d2 = length (buf s)"
    and hyp: "\<forall>i<length d2. i \<notin> skipped sf \<longrightarrow> d2 ! i = buf s ! i"
  shows "check_blocktype (s\<lparr>buf := d2\<rparr>) = (fst (check_blocktype s), s\<lparr>buf := d2\<rparr>)"
    and "block (s\<lparr>buf := d2\<rparr>) = (r1, s1\<lparr>buf := d2\<rparr>)"
    and "clean s1" and "buf s1 = buf s"
proof -
  from c far st err hyp
  have "\<forall>i. position s \<le> i \<and> i < position s + 2 \<and> i < length d2 \<longrightarrow> d2 ! i = buf s ! i"
    by (rule peek_agrees)
  with len show "check_blocktype (s\<lparr>buf := d2\<rparr>) = (fst (check_blocktype s), s\<lparr>buf := d2\<rparr>)"
    by (rule check_blocktype_transfer)
  from loc c run have st1: "steps_to s s1"
    and tr: "\<And>d. agrees d s s1 \<Longrightarrow> block (s\<lparr>buf := d\<rparr>) = (r1, s1\<lparr>buf := d\<rparr>)"
    by (auto simp: local_at_def)
  from len hyp st have "agrees d2 s s1" by (rule global_agrees)
  then show "block (s\<lparr>buf := d2\<rparr>) = (r1, s1\<lparr>buf := d2\<rparr>)" by (rule tr)
  from c st1 show "clean s1" by (rule clean_steps)
  from st1 show "buf s1 = buf s" by (simp add: steps_to_def)
qed

lemma parse_loop_transfer:
  assumes "parse_loop gc imgs s = (r, sf)"
  shows "clean s \<Longrightarrow> length d2 = length (buf s) \<Longrightarrow>
         (\<forall>i<length d2. i \<notin> skipped sf \<longrightarrow> d2 ! i = buf s ! i) \<Longrightarrow>
         parse_loop gc imgs (s\<lparr>buf := d2\<rparr>) = (r, sf\<lparr>buf := d2\<rparr>)"
  using assms
proof (induction rule: parse_loop_induct)
  case (check_fails gc imgs s e)
  from check_fails(2,4) have "\<forall>i. position s \<le> i \<and> i < position s + 2 \<and> i < length d2 \<longrightarrow> d2 ! i = buf s ! i"
    by (rule peek_agrees_here)
  with check_fails(3) have "check_blocktype (s\<lparr>buf := d2\<rparr>) = (fst (check_blocktype s), s\<lparr>buf := d2\<rparr>)"
    by (rule check_blocktype_transfer)
  with check_fails(1) show ?case
    by (subst parse_loop.simps) simp
next
  case (trailer gc imgs s)
  from trailer(2,4) have "\<forall>i. position s \<le> i \<and> i < position s + 2 \<and> i < length d2 \<longrightarrow> d2 ! i = buf s ! i"
    by (rule peek_agrees_here)
  with trailer(3) have "check_blocktype (s\<lparr>buf := d2\<rparr>) = (fst (check_blocktype s), s\<lparr>buf := d2\<rparr>)"
    by (rule check_blocktype_transfer)
  with trailer(1) show ?case
    by (subst parse_loop.simps) simp
next
  case (duplicate g imgs s)
  from duplicate(2,4) have "\<forall>i. position s \<le> i \<and> i < position s + 2 \<and> i < length d2 \<longrightarrow> d2 ! i = buf s ! i"
    by (rule peek_agrees_here)
  with duplicate(3) have "check_blocktype (s\<lparr>buf := d2\<rparr>) = (fst (check_blocktype s), s\<lparr>buf := d2\<rparr>)"
    by (rule check_blocktype_transfer)
  with duplicate(1) show ?case
    by (subst parse_loop.simps) simp
next
  case (control_fails imgs s e s1)
  note b = block_transfer [OF control_fails(2) local_consume_graphic_control_extension
      consume_graphic_control_extension_far [OF control_fails(2)] control_fails(3)
      steps_to_refl refl control_fails(4,5)]
  from control_fails(1) b(1,2) show ?case
    by (subst parse_loop.simps) simp
next
  case (control imgs s g s1 r s')
  from control(3) have st: "steps_to s1 s'" by (rule parse_loop_steps)
  have err: "isl (Inr g :: error + GraphicControlExtension) \<Longrightarrow> s' = s1" by simp
  note b = block_transfer [OF control(2) local_consume_graphic_control_extension
      consume_graphic_control_extension_far [OF control(2)] control(5) st err control(6,7)]
  from b(3,4) control(6,7) have "parse_loop (Some g) imgs (s1\<lparr>buf := d2\<rparr>) = (r, s'\<lparr>buf := d2\<rparr>)"
    by (intro control(4)) simp_all
  with control(1) b(1,2) show ?case
    by (subst parse_loop.simps) simp
next
  case (image_fails gc imgs s e s1)
  note b = block_transfer [OF image_fails(2) local_GifImage_parse_metadata
      GifImage_parse_metadata_far [OF image_fails(2)] image_fails(3)
      steps_to_refl refl image_fails(4,5)]
  from image_fails(1) b(1,2) show ?case
    by (subst parse_loop.simps) simp
next
  case (image gc imgs s img s1 r s')
  from image(3) have st: "steps_to s1 s'" by (rule parse_loop_steps)
  have err: "isl (Inr img :: error + GifImage) \<Longrightarrow> s' = s1" by simp
  note b = block_transfer [OF image(2) local_GifImage_parse_metadata
      GifImage_parse_metadata_far [OF image(2)] image(5) st err image(6,7)]
  from b(3,4) image(6,7) have "parse_loop None (imgs @ [img]) (s1\<lparr>buf := d2\<rparr>) = (r, s'\<lparr>buf := d2\<rparr>)"
    by (intro image(4)) simp_all
  with image(1) b(1,2) show ?case
    by (subst parse_loop.simps) simp
next
  case (extension_fails gc imgs s e s1)
  note b = block_transfer [OF extension_fails(2) local_skip_extension
      skip_extension_far [OF extension_fails(2)] extension_fails(3)
      steps_to_refl refl extension_fails(4,5)]
  from extension_fails(1) b(1,2) show ?case
    by (subst parse_loop.simps) simp
next
  case (extension gc imgs s n s1 r s')
  from extension(3) have st: "steps_to s1 s'" by (rule parse_loop_steps)
  have err: "isl (Inr n :: error + nat) \<Longrightarrow> s' = s1" by simp
  note b = block_transfer [OF extension(2) local_skip_extension
      skip_extension_far [OF extension(2)] extension(5) st err extension(6,7)]
  from b(3,4) extension(6,7) have "parse_loop gc imgs (s1\<lparr>buf := d2\<rparr>) = (r, s'\<lparr>buf := d2\<rparr>)"
    by (intro extension(4)) simp_all
  with extension(1) b(1,2) show ?case
    by (subst parse_loop.simps) simp
qed

lemma Gif_parse_metadata_before_loop:
  "Gif_parse_metadata contents =
     (case before_loop (GifStream_init contents) of
        (Inl e, s3) \<Rightarrow> (Inl e, s3, [])
      | (Inr (v, lsd, table), s3) \<Rightarrow>
          (case parse_loop None [] s3 of
             (Inl e, s4) \<Rightarrow>
               (Inl e, s4,
                if LogicalScreenDescriptor.colortable_exists lsd then []
                else [''warning: no global color table''])
           | (Inr imgs, s4) \<Rightarrow>
               (Inr \<lparr>version = v, Gif.colortable = table,
                     logical_screen_descriptor = lsd, images = imgs\<rparr>,
                close s4,
                if LogicalScreenDescriptor.colortable_exists lsd then []
                else [''warning: no global color table''])))"
  unfolding Gif_parse_metadata_def before_loop_def then_do_def return_def
  by (simp split: prod.splits sum.splits)

lemma local_before_loop: "local_at before_loop s"
  unfolding before_loop_def
  by (intro local_intros local_consume_header local_consume_screen_descriptor
        local_consume_color_table)

lemma stage_transfer:
  assumes run: "m s = (r, s')"
    and loc: "local_at m s"
    and c: "clean s"
    and st: "steps_to s' sf"
    and len: "length d2 = length (buf s)"
    and hyp: "\<forall>i<length d2. i \<notin> skipped sf \<longrightarrow> d2 ! i = buf s ! i"
  shows "m (s\<lparr>buf := d2\<rparr>) = (r, s'\<lparr>buf := d2\<rparr>)" and "clean s'" and "buf s' = buf s"
proof -
  from loc c run have st1: "steps_to s s'"
    and tr: "\<And>d. agrees d s s' \<Longrightarrow> m (s\<lparr>buf := d\<rparr>) = (r, s'\<lparr>buf := d\<rparr>)"
    by (auto simp: local_at_def)
  from len hyp st have "agrees d2 s s'" by (rule global_agrees)
  then show "m (s\<lparr>buf := d2\<rparr>) = (r, s'\<lparr>buf := d2\<rparr>)" by (rule tr)
  from c st1 show "clean s'" by (rule clean_steps)
  from st1 show "buf s' = buf s" by (simp add: steps_to_def)
qed

lemma list_update_differs: "xs[k := v] ! i \<noteq> xs ! i \<Longrightarrow> i = k"
  by (cases "i = k") simp_all

subsection \<open>The classifier on the bytes ahead\<close>

text \<open>In the order of its tests: a first byte \<^verbatim>\<open>3B\<close> is the trailer, also as the last byte of
  the file; one byte left that is not the trailer is the error "unexpected end of file"; a
  first byte \<^verbatim>\<open>2C\<close> is image data; a first byte \<^verbatim>\<open>21\<close> is a graphic-control extension when
  the second byte is \<^verbatim>\<open>F9\<close> and an unknown extension with any other second byte; any other
  first byte is the error "unknown block" with both bytes; with no byte left the index into
  the empty peek raises \<^verbatim>\<open>IndexError\<close>. The cursor stays where it is.\<close>

lemma check_blocktype_classifies:
  "check_blocktype s =
     (case drop (position s) (buf s) of
        [] \<Rightarrow> Inl IndexError
      | [b0] \<Rightarrow> if b0 = 0x3B then Inr TRAILER else Inl UnexpectedEndOfFile
      | b0 # b1 # _ \<Rightarrow>
          if b0 = 0x3B then Inr TRAILER
          else if b0 = 0x2C then Inr IMAGE_DATA
          else if b0 = 0x21 then (if b1 = 0xF9 then Inr EXT_GRAPHIC_CONTROL else Inr EXT_UNKNOWN)
          else Inl (UnknownBlock b0 b1),
      s)"
proof -
  define xs where "xs = drop (position s) (buf s)"
  consider "xs = []" | b0 where "xs = [b0]" | b0 b1 rest where "xs = b0 # b1 # rest"
    by (cases xs; cases "tl xs") auto
  then have "check_blocktype s =
     (case xs of
        [] \<Rightarrow> Inl IndexError
      | [b0] \<Rightarrow> if b0 = 0x3B then Inr TRAILER else Inl UnexpectedEndOfFile
      | b0 # b1 # _ \<Rightarrow>
          if b0 = 0x3B then Inr TRAILER
          else if b0 = 0x2C then Inr IMAGE_DATA
          else if b0 = 0x21 then (if b1 = 0xF9 then Inr EXT_GRAPHIC_CONTROL else Inr EXT_UNKNOWN)
          else Inl (UnknownBlock b0 b1),
      s)"
    unfolding check_blocktype_def then_do_def read_def xs_def [symmetric]
    by cases
      (simp_all add: return_def raise_def TRAILER_LABEL_def IMAGE_SEPARATOR_def
         EXT_INTRODUCER_def EXT_GRAPHIC_CONTROL_LABEL_def)
  then show ?thesis by (simp only: xs_def)
qed

subsection \<open>Rounds and the loop\<close>

lemma round_parse_loop:
  assumes "round a b"
  shows "(case a of (gc, imgs, s) \<Rightarrow> parse_loop gc imgs s) =
         (case b of (gc, imgs, s) \<Rightarrow> parse_loop gc imgs s)"
  using assms
proof cases
  case (control s g s1 imgs)
  then show ?thesis by (simp add: parse_loop.simps [of None imgs s])
next
  case (image s gc img s1 imgs)
  then show ?thesis by (simp add: parse_loop.simps [of gc imgs s])
next
  case (extension s n s1 gc imgs)
  then show ?thesis by (simp add: parse_loop.simps [of gc imgs s])
qed

lemma rounds_parse_loop:
  assumes "round\<^sup>*\<^sup>* a b"
  shows "(case a of (gc, imgs, s) \<Rightarrow> parse_loop gc imgs s) =
         (case b of (gc, imgs, s) \<Rightarrow> parse_loop gc imgs s)"
  using assms
proof (induction rule: rtranclp_induct)
  case base
  show ?case by simp
next
  case (step y z)
  from step.IH round_parse_loop [OF step.hyps(2)] show ?case by simp
qed

lemma extension_round_parse_loop:
  assumes "extension_round s s1"
  shows "parse_loop gc imgs s = parse_loop gc imgs s1"
proof -
  from assms obtain n where "check_blocktype s = (Inr EXT_UNKNOWN, s)"
    and "skip_extension s = (Inr n, s1)"
    unfolding extension_round_def by (cases "skip_extension s"; cases "fst (skip_extension s)") auto
  then show ?thesis by (simp add: parse_loop.simps [of gc imgs s])
qed

lemma extension_rounds_parse_loop:
  assumes "extension_round\<^sup>*\<^sup>* s sn"
  shows "parse_loop gc imgs s = parse_loop gc imgs sn"
  using assms
proof (induction rule: rtranclp_induct)
  case base
  show ?case by simp
next
  case (step y z)
  from step.IH extension_round_parse_loop [OF step.hyps(2)] show ?case by simp
qed

section \<open>The claims\<close>

text \<open>
  C1. The claim: the \<^verbatim>\<open>interlace\<close> flag of the decoded image descriptor is bit 6 of the packed
  byte. The decode assigns bit 6 to an attribute \<^verbatim>\<open>interlaced\<close>, which \<^verbatim>\<open>__init__\<close> does not
  create and \<^verbatim>\<open>pretty_print\<close> does not read; \<^verbatim>\<open>interlace\<close> keeps the \<^verbatim>\<open>False\<close> of
  \<^verbatim>\<open>__init__\<close>. On the descriptor \<^verbatim>\<open>2C 00 00 00 00 01 00 01 00 40\<close>, whose packed byte has bit 6
  set, the decode returns a descriptor with \<open>interlace = False\<close>.
\<close>

theorem consume_image_descriptor_interlace_unset:
  "fst (consume_image_descriptor
          (MmapCursor_init [0x2C, 0, 0, 0, 0, 1, 0, 1, 0, 0x40])) =
   Inr \<lparr>leftpos = 0, toppos = 0, ImageDescriptor.width = 1, ImageDescriptor.height = 1,
        interlace = False,
        ImageDescriptor.colortable_exists = False,
        ImageDescriptor.colortable_is_sorted = False,
        ImageDescriptor.colortable_size = 0,
        interlaced = Some True\<rparr>"
  by (simp add: consume_image_descriptor_def then_do_def next_byte_def next_int_def
        next_bytes_def return_def raise_def MmapCursor_init_def IMAGE_SEPARATOR_def
        ImageDescriptor_init_def)

text \<open>
  C3. The claim: a graphic-control block with a disposal code in 4-7 is decoded without an
  error. It is not: on the block \<^verbatim>\<open>21 F9 04 10 00 00 00 00\<close>, disposal code 4, the constructor
  of the enum raises.
\<close>

theorem graphic_control_reserved_disposal_raises:
  "fst (consume_graphic_control_extension
          (MmapCursor_init [0x21, 0xF9, 4, 0x10, 0, 0, 0, 0])) = Inl (ValueError 4)"
  by (simp add: consume_graphic_control_extension_def then_do_def next_byte_def next_int_def
        next_bytes_def return_def raise_def MmapCursor_init_def EXT_INTRODUCER_def
        EXT_GRAPHIC_CONTROL_LABEL_def advance_def DisposalMethod_of_value_def)

text \<open>
  C3, as the code has it: for every graphic-control block, that is the two signature bytes,
  a size byte, the packed byte, two bytes of delay, the transparent colour and a terminator,
  anywhere in a file, the decode reads the eight bytes and then returns the extension when
  the disposal code (bits 2-4 of the packed byte) is in 0-3, with the member of the enum that
  has the code as its value, bit 0 as the transparency flag and bit 1 as the user-input flag;
  when the code is in 4-7 it raises \<^verbatim>\<open>ValueError\<close>.
\<close>

theorem consume_graphic_control_extension_disposal:
  "consume_graphic_control_extension
     \<lparr>buf = pre @ [0x21, 0xF9, size_byte, packed, d0, d1, tc, terminator] @ rest,
      position = length pre, closed = c, skipped = k\<rparr> =
   (let code = unat (drop_bit 2 packed AND 0x7) in
    if code < 4
    then Inr \<lparr>disposal_method =
                 [NONE, NO_DISPOSE, RESTORE_BACKGROUND, RESTORE_PREVIOUS] ! code,
               user_input_flag = bit packed 1, transparent_flag = bit packed 0,
               transparent_color = unat tc, delay = unat d0 + 256 * unat d1\<rparr>
    else Inl (ValueError code),
    \<lparr>buf = pre @ [0x21, 0xF9, size_byte, packed, d0, d1, tc, terminator] @ rest,
      position = length pre + 8, closed = c, skipped = k\<rparr>)"
  by (simp add: consume_graphic_control_extension_def then_do_def next_byte_def next_int_def
        next_bytes_def return_def raise_def EXT_INTRODUCER_def nth_append
        EXT_GRAPHIC_CONTROL_LABEL_def advance_def DisposalMethod_of_value_def Let_def
        GraphicControlExtension_init_def and_1_bit bit_drop_bit_eq)

text \<open>
  C5. For every chain of sub-blocks in a file, that is payloads of 1 to 255 bytes, each after
  its length byte, and a terminating zero byte, \<^verbatim>\<open>skip_data\<close> started on the first length byte
  returns the sum of the payload lengths, which is the sum of the length bytes, and leaves
  the cursor behind the chain, just past the terminating zero: it has moved by the payload
  bytes, the length bytes and the terminator. The offsets it has stepped over are those of
  the payload bytes.
\<close>

theorem skip_data_sub_blocks:
  assumes "\<forall>c\<in>set cs. 0 < length c \<and> length c < 256"
  shows "skip_data \<lparr>buf = pre @ sub_blocks cs @ rest, position = length pre,
                    closed = cl, skipped = k\<rparr> =
         (Inr (sum_list (map length cs)),
          \<lparr>buf = pre @ sub_blocks cs @ rest,
           position = length pre + (sum_list (map length cs) + length cs + 1),
           closed = cl, skipped = k \<union> payload_offsets (length pre) cs\<rparr>) \<and>
         last (sub_blocks cs) = 0"
proof -
  let ?s = "\<lparr>buf = pre @ sub_blocks cs @ rest, position = length pre,
              closed = cl, skipped = k\<rparr>"
  have "skip_data ?s =
         (Inr (0 + sum_list (map length cs)),
          ?s\<lparr>position := length pre + length (sub_blocks cs),
            skipped := skipped ?s \<union> payload_offsets (length pre) cs\<rparr>)"
    unfolding skip_data_next using assms by (intro skip_data_loop_chain) auto
  moreover have "sub_blocks xs \<noteq> []" for xs
    by (cases xs) auto
  then have "last (sub_blocks cs) = 0"
    by (induction cs) (auto simp: last_append)
  ultimately show ?thesis
    by (simp add: length_sub_blocks)
qed

theorem skip_data_sub_blocks_witness:
  "skip_data \<lparr>buf = [0x2C, 2, 7, 7, 1, 9, 0, 0x3B], position = 1,
               closed = False, skipped = {}\<rparr> =
     (Inr 3, \<lparr>buf = [0x2C, 2, 7, 7, 1, 9, 0, 0x3B], position = 7,
               closed = False, skipped = {2, 3, 5}\<rparr>)"
proof -
  have valid: "\<forall>c\<in>set [[7, 7], [9 :: byte]]. 0 < length c \<and> length c < 256"
    by simp
  from skip_data_sub_blocks [OF valid, of "[0x2C]" "[0x3B]" False "{}"]
  show ?thesis by (auto simp: eval_nat_numeral atLeastLessThanSuc)
qed

text \<open>
  C6. In every aggregate that the parse returns, the size code of the screen descriptor and
  of every image descriptor is in 0-7 and \<^verbatim>\<open>num_colors\<close> is 2 to the power of the size code
  plus one; the global colour table is there exactly if the screen descriptor's flag is set,
  and then it is the \<^verbatim>\<open>num_colors\<close> RGB triples that follow the screen descriptor (offset 13)
  in the file, in their order; every image has a local table exactly if its descriptor's flag
  is set, and then the table is \<^verbatim>\<open>num_colors\<close> consecutive RGB triples of the file, in their
  order.
\<close>

theorem color_tables_fit_descriptors:
  assumes "Gif_parse_metadata contents = (Inr gif, s, out)"
  shows "LogicalScreenDescriptor.colortable_size (logical_screen_descriptor gif) \<le> 7 \<and>
         LogicalScreenDescriptor_num_colors (logical_screen_descriptor gif) =
           2 ^ (LogicalScreenDescriptor.colortable_size (logical_screen_descriptor gif) + 1) \<and>
         (case Gif.colortable gif of
            None \<Rightarrow> \<not> LogicalScreenDescriptor.colortable_exists (logical_screen_descriptor gif)
          | Some t \<Rightarrow>
              LogicalScreenDescriptor.colortable_exists (logical_screen_descriptor gif) \<and>
              length t = LogicalScreenDescriptor_num_colors (logical_screen_descriptor gif) \<and>
              13 + 3 * length t \<le> length contents \<and>
              t = rgb_triples contents 13 (length t)) \<and>
         (\<forall>img\<in>set (images gif).
            ImageDescriptor.colortable_size (image_descriptor img) \<le> 7 \<and>
            ImageDescriptor_num_colors (image_descriptor img) =
              2 ^ (ImageDescriptor.colortable_size (image_descriptor img) + 1) \<and>
            (case GifImage.colortable img of
               None \<Rightarrow> \<not> ImageDescriptor.colortable_exists (image_descriptor img)
             | Some t \<Rightarrow>
                 ImageDescriptor.colortable_exists (image_descriptor img) \<and>
                 length t = ImageDescriptor_num_colors (image_descriptor img) \<and>
                 (\<exists>p. p + 3 * length t \<le> length contents \<and>
                      t = rgb_triples contents p (length t))))"
proof -
  let ?s0 = "GifStream_init contents"
  from assms obtain v s1 where h: "consume_header ?s0 = (Inr v, s1)"
    by (auto simp: Gif_parse_metadata_def split: prod.splits sum.splits)
  from consume_header_Inr [OF h]
  have s1: "buf s1 = contents" "position s1 = 6"
    by (simp_all add: GifStream_init_def MmapCursor_init_def)
  from assms h obtain lsd s2 where d: "consume_screen_descriptor s1 = (Inr lsd, s2)"
    by (auto simp: Gif_parse_metadata_def split: prod.splits sum.splits)
  from consume_screen_descriptor_Inr [OF d] s1
  have s2: "buf s2 = contents" "position s2 = 13"
    and size: "LogicalScreenDescriptor.colortable_size lsd \<le> 7"
    by simp_all
  let ?n = "LogicalScreenDescriptor_num_colors lsd"
  have n: "0 < ?n" by (simp add: LogicalScreenDescriptor_num_colors_def)
  have loop: "\<forall>img\<in>set imgs. local_table_fits contents img"
    if "parse_loop None [] s3 = (Inr imgs, s4)" "buf s3 = contents" for s3 imgs s4
    using parse_loop_tables [OF that(1), of imgs] that(2) by simp
  show ?thesis
  proof (cases "LogicalScreenDescriptor.colortable_exists lsd")
    case True
    with assms h d obtain t s3 where t: "consume_color_table ?n s2 = (Inr t, s3)"
      by (auto simp: Gif_parse_metadata_def split: prod.splits sum.splits)
    from color_table_loop_Inr [OF t [unfolded consume_color_table_def]] s2 n
    have tb: "t = rgb_triples contents 13 ?n" "13 + 3 * ?n \<le> length contents"
      and s3: "buf s3 = contents"
      by auto
    from assms h d True t obtain imgs s4 where l: "parse_loop None [] s3 = (Inr imgs, s4)"
      and gif: "gif = \<lparr>version = v, Gif.colortable = Some t,
                logical_screen_descriptor = lsd, images = imgs\<rparr>"
      by (auto simp: Gif_parse_metadata_def split: prod.splits sum.splits)
    from loop [OF l s3] gif True size tb show ?thesis
      by (simp add: local_table_fits_def LogicalScreenDescriptor_num_colors_def
            ImageDescriptor_num_colors_def)
  next
    case False
    with assms h d obtain imgs s4 where l: "parse_loop None [] s2 = (Inr imgs, s4)"
      and gif: "gif = \<lparr>version = v, Gif.colortable = None,
                logical_screen_descriptor = lsd, images = imgs\<rparr>"
      by (auto simp: Gif_parse_metadata_def split: prod.splits sum.splits)
    from loop [OF l s2(1)] gif False size show ?thesis
      by (simp add: local_table_fits_def LogicalScreenDescriptor_num_colors_def
            ImageDescriptor_num_colors_def)
  qed
qed

theorem color_tables_fit_descriptors_witness:
  "(case fst (Gif_parse_metadata two_table_gif) of
      Inl e \<Rightarrow> False
    | Inr gif \<Rightarrow>
        Gif.colortable gif = Some [(1, 2, 3), (4, 5, 6)] \<and>
        map GifImage.colortable (images gif) = [Some [(7, 8, 9), (10, 11, 12)]]) \<and>
   [(1, 2, 3), (4, 5, 6)] = rgb_triples two_table_gif 13 2 \<and>
   (\<exists>p. p + 3 * 2 \<le> length two_table_gif \<and>
        [(7, 8, 9), (10, 11, 12)] = rgb_triples two_table_gif p 2)"
  using color_tables_fit_descriptors [OF two_table_gif_parsed]
  by (simp add: two_table_gif_parsed flip: numeral_2_eq_2)

text \<open>
  C7. The claim: the classifier raises the truncation error whenever fewer than two bytes
  remain and it is not at a trailer. With no byte left, as after the screen descriptor of a
  file that lacks its trailer, \<^verbatim>\<open>check_blocktype\<close> indexes the empty peek (\<^verbatim>\<open>signature[0]\<close>) before
  it tests the length, and what is raised is \<^verbatim>\<open>IndexError\<close>, not the "unexpected end of file"
  error of the length test. On the file of \<^verbatim>\<open>GIF89a\<close> and a screen descriptor alone the
  classifier, and with it the parse, ends in \<^verbatim>\<open>IndexError\<close>.
\<close>

theorem missing_trailer_raises_IndexError:
  "check_blocktype
     \<lparr>buf = [0x47, 0x49, 0x46, 0x38, 0x39, 0x61, 1, 0, 1, 0, 0, 0, 0],
      position = 13, closed = False, skipped = {}\<rparr> =
     (Inl IndexError,
      \<lparr>buf = [0x47, 0x49, 0x46, 0x38, 0x39, 0x61, 1, 0, 1, 0, 0, 0, 0],
       position = 13, closed = False, skipped = {}\<rparr>) \<and>
   fst (Gif_parse_metadata [0x47, 0x49, 0x46, 0x38, 0x39, 0x61, 1, 0, 1, 0, 0, 0, 0]) =
     Inl IndexError"
  by (simp add: gif_eval)

text \<open>
  C8. The file of the six bytes \<^verbatim>\<open>GIF89a\<close>, any seven bytes of screen descriptor whose packed
  byte has bit 7 clear, and the trailer \<^verbatim>\<open>3B\<close> is parsed without an error: the version is
  \<^verbatim>\<open>GIF89a\<close>, there is no global colour table, the list of images is empty, the one line
  printed is the warning about the missing global table, and the stream is closed with the
  cursor on the trailer.
\<close>

theorem minimal_gif:
  assumes "\<not> bit packed 7"
  shows "Gif_parse_metadata
           ([0x47, 0x49, 0x46, 0x38, 0x39, 0x61] @ [w0, w1, h0, h1, packed, bg, par] @ [0x3B]) =
         (Inr \<lparr>version = GIF89a, Gif.colortable = None,
               logical_screen_descriptor =
                 \<lparr>LogicalScreenDescriptor.width = unat w0 + 256 * unat w1,
                  LogicalScreenDescriptor.height = unat h0 + 256 * unat h1,
                  LogicalScreenDescriptor.colortable_exists = False,
                  LogicalScreenDescriptor.color_resolution = unat (drop_bit 4 packed AND 0x7),
                  LogicalScreenDescriptor.colortable_is_sorted = bit packed 3,
                  LogicalScreenDescriptor.colortable_size = unat (packed AND 0x7),
                  LogicalScreenDescriptor.background_color_index = unat bg,
                  LogicalScreenDescriptor.pixel_aspect_ratio = unat par\<rparr>,
               images = []\<rparr>,
          \<lparr>buf = [0x47, 0x49, 0x46, 0x38, 0x39, 0x61, w0, w1, h0, h1, packed, bg, par, 0x3B],
           position = 13, closed = True, skipped = {}\<rparr>,
          [''warning: no global color table''])"
proof -
  let ?contents = "[0x47, 0x49, 0x46, 0x38, 0x39, 0x61, w0, w1, h0, h1, packed, bg, par, 0x3B]"
  let ?at = "\<lambda>p. \<lparr>buf = ?contents, position = p, closed = False, skipped = {}\<rparr>"
  have hdr: "consume_header (GifStream_init ?contents) = (Inr GIF89a, ?at 6)"
    unfolding GifStream_init_def MmapCursor_init_def by (rule consume_header_GIF89a)
  have lsd: "consume_screen_descriptor (?at 6) =
      (Inr \<lparr>LogicalScreenDescriptor.width = unat w0 + 256 * unat w1,
                  LogicalScreenDescriptor.height = unat h0 + 256 * unat h1,
                  LogicalScreenDescriptor.colortable_exists = False,
                  LogicalScreenDescriptor.color_resolution = unat (drop_bit 4 packed AND 0x7),
                  LogicalScreenDescriptor.colortable_is_sorted = bit packed 3,
                  LogicalScreenDescriptor.colortable_size = unat (packed AND 0x7),
                  LogicalScreenDescriptor.background_color_index = unat bg,
                  LogicalScreenDescriptor.pixel_aspect_ratio = unat par\<rparr>,
       ?at 13)"
    using assms
      consume_screen_descriptor_bytes [of "[0x47, 0x49, 0x46, 0x38, 0x39, 0x61]" 6
        w0 w1 h0 h1 packed bg par "[0x3B]" False "{}"]
    by simp
  have cb: "check_blocktype (?at 13) = (Inr TRAILER, ?at 13)"
    by (simp add: check_blocktype_def then_do_def read_def return_def TRAILER_LABEL_def)
  have loop: "parse_loop None [] (?at 13) = (Inr [], ?at 13)"
    by (simp add: parse_loop.simps [of None "[]"] cb)
  show ?thesis
    by (simp add: Gif_parse_metadata_def hdr lsd loop close_def)
qed

theorem minimal_gif_witness:
  "\<not> bit (0x70 :: byte) 7 \<and>
   Gif_parse_metadata [0x47, 0x49, 0x46, 0x38, 0x39, 0x61, 1, 0, 1, 0, 0x70, 0, 0, 0x3B] =
     (Inr \<lparr>version = GIF89a, Gif.colortable = None,
           logical_screen_descriptor =
             \<lparr>LogicalScreenDescriptor.width = 1,
              LogicalScreenDescriptor.height = 1,
              LogicalScreenDescriptor.colortable_exists = False,
              LogicalScreenDescriptor.color_resolution = 7,
              LogicalScreenDescriptor.colortable_is_sorted = False,
              LogicalScreenDescriptor.colortable_size = 0,
              LogicalScreenDescriptor.background_color_index = 0,
              LogicalScreenDescriptor.pixel_aspect_ratio = 0\<rparr>,
           images = []\<rparr>,
      \<lparr>buf = [0x47, 0x49, 0x46, 0x38, 0x39, 0x61, 1, 0, 1, 0, 0x70, 0, 0, 0x3B],
       position = 13, closed = True, skipped = {}\<rparr>,
      [''warning: no global color table''])"
proof -
  have clear: "\<not> bit (0x70 :: byte) 7"
    by (simp add: bit_iff_odd)
  have "unat (drop_bit 4 (0x70 :: byte) AND 0x7) = 7" "\<not> bit (0x70 :: byte) 3"
    "unat ((0x70 :: byte) AND 0x7) = 0"
    by (simp_all add: bit_iff_odd)
  with clear minimal_gif [OF clear, of 1 0 1 0 0 0] show ?thesis
    by simp
qed

text \<open>
  C2. The claim: the stream is closed on every exit path of the parse, also when it raises.
  \<^verbatim>\<open>Gif.__parse_metadata\<close> has one call of \<^verbatim>\<open>close\<close>, its last statement, and no handler: on the
  file \<^verbatim>\<open>GIX89a\<close> the parse raises the bad-signature error and the stream is left open.
\<close>

theorem bad_signature_leaves_stream_open:
  "fst (Gif_parse_metadata [0x47, 0x49, 0x58, 0x38, 0x39, 0x61]) = Inl (BadSignature ''GIX'') \<and>
   \<not> closed (fst (snd (Gif_parse_metadata [0x47, 0x49, 0x58, 0x38, 0x39, 0x61])))"
  by (simp add: Gif_parse_metadata_def GifStream_init_def MmapCursor_init_def consume_header_def
        then_do_def next_ascii_def next_bytes_def return_def raise_def ascii_GIX [simplified])

text \<open>
  C2, as the code has it: for every input the stream is closed when the parse returns
  exactly if the parse has succeeded; on every path that raises, the stream is left open.
\<close>

theorem stream_closed_iff_parsed:
  "closed (fst (snd (Gif_parse_metadata contents))) = (\<not> isl (fst (Gif_parse_metadata contents)))"
proof -
  let ?s0 = "GifStream_init contents"
  have c0: "\<not> closed ?s0" by (simp add: GifStream_init_def MmapCursor_init_def)
  obtain r1 s1 where h: "consume_header ?s0 = (r1, s1)" by (cases "consume_header ?s0")
  then have c1: "\<not> closed s1" using c0 consume_header_steps steps_to_def by metis
  show ?thesis
  proof (cases r1)
    case (Inl e)
    with h c1 show ?thesis by (simp add: Gif_parse_metadata_def)
  next
    case v: (Inr v)
    obtain r2 s2 where d: "consume_screen_descriptor s1 = (r2, s2)"
      by (cases "consume_screen_descriptor s1")
    then have c2: "\<not> closed s2" using c1 consume_screen_descriptor_steps steps_to_def by metis
    show ?thesis
    proof (cases r2)
      case (Inl e)
      with h v d c2 show ?thesis by (simp add: Gif_parse_metadata_def)
    next
      case lsd: (Inr lsd)
      define n where "n = LogicalScreenDescriptor_num_colors lsd"
      obtain r3 s3 where t: "consume_color_table n s2 = (r3, s3)"
        by (cases "consume_color_table n s2")
      then have c3: "\<not> closed s3" using c2 consume_color_table_steps steps_to_def by metis
      have loop: "\<not> closed (snd (parse_loop None [] s))" if "\<not> closed s" for s
        using that parse_loop_steps [of None "[]" s] steps_to_def
        by (metis prod.collapse)
      show ?thesis
      proof (cases "LogicalScreenDescriptor.colortable_exists lsd")
        case True
        show ?thesis
        proof (cases r3)
          case (Inl e)
          with h v d lsd t c3 True show ?thesis
            by (simp add: Gif_parse_metadata_def n_def [symmetric])
        next
          case (Inr table)
          with h v d lsd t True loop [OF c3] show ?thesis
            by (auto simp: Gif_parse_metadata_def n_def [symmetric] close_def
                  split: prod.splits sum.splits)
        qed
      next
        case False
        with h v d lsd loop [OF c2] show ?thesis
          by (auto simp: Gif_parse_metadata_def close_def split: prod.splits sum.splits)
      qed
    qed
  qed
qed

text \<open>
  C4. The claim: every file with two graphic-control blocks and no image block between them
  fails with the duplicate-control error. Not when the first of the two has a reserved
  disposal code: on \<^verbatim>\<open>GIF89a\<close>, a screen descriptor, the block \<^verbatim>\<open>21 F9 04 10 00 00 00 00\<close>
  (disposal code 4), a second graphic-control block and the trailer, the parse ends in the
  \<^verbatim>\<open>ValueError\<close> of the first block's decode.
\<close>

theorem reserved_disposal_before_second_control:
  "fst (Gif_parse_metadata
          [0x47, 0x49, 0x46, 0x38, 0x39, 0x61,
           1, 0, 1, 0, 0, 0, 0,
           0x21, 0xF9, 4, 0x10, 0, 0, 0, 0,
           0x21, 0xF9, 4, 0, 0, 0, 0, 0,
           0x3B]) = Inl (ValueError 4)"
  by (simp add: gif_eval)

text \<open>
  C4, as the code has it. Let the header, the screen descriptor and the global table of a
  file be read, let the loop have taken the blocks before a graphic-control block with no
  graphic-control value pending, let that block be decoded (its disposal code is in 0-3),
  and let the loop then have skipped any number of unknown extensions, none, one or more,
  and stand in front of a block that the classifier takes for a graphic-control block. Then
  the parse of the file ends in the error "two graphic control blocks for one image", with
  the cursor in front of that second block: it is neither decoded nor stored.
\<close>

theorem second_graphic_control_raises:
  assumes start: "before_loop (GifStream_init contents) = (Inr (v, lsd, table), s3)"
    and earlier: "round\<^sup>*\<^sup>* (None, [], s3) (None, imgs, s0)"
    and first: "check_blocktype s0 = (Inr EXT_GRAPHIC_CONTROL, s0)"
    and decoded: "consume_graphic_control_extension s0 = (Inr g, s1)"
    and between: "extension_round\<^sup>*\<^sup>* s1 sn"
    and second: "check_blocktype sn = (Inr EXT_GRAPHIC_CONTROL, sn)"
  shows "Gif_parse_metadata contents =
           (Inl TwoGraphicControlBlocks, sn,
            if LogicalScreenDescriptor.colortable_exists lsd then []
            else [''warning: no global color table''])"
proof -
  from rounds_parse_loop [OF earlier]
  have "parse_loop None [] s3 = parse_loop None imgs s0" by simp
  also from first decoded have "\<dots> = parse_loop (Some g) imgs s1"
    by (simp add: parse_loop.simps [of None imgs s0])
  also from between have "\<dots> = parse_loop (Some g) imgs sn"
    by (rule extension_rounds_parse_loop)
  also from second have "\<dots> = (Inl TwoGraphicControlBlocks, sn)"
    by (simp add: parse_loop.simps [of "Some g" imgs sn])
  finally show ?thesis
    using start by (simp add: Gif_parse_metadata_before_loop)
qed

theorem second_graphic_control_raises_witness:
  "fst (Gif_parse_metadata control_comment_control_gif) = Inl TwoGraphicControlBlocks \<and>
   position (fst (snd (Gif_parse_metadata control_comment_control_gif))) = 26"
proof -
  let ?at = "\<lambda>p k. \<lparr>buf = control_comment_control_gif, position = p, closed = False,
                      skipped = k\<rparr>"
  let ?lsd = "\<lparr>LogicalScreenDescriptor.width = 1,
              LogicalScreenDescriptor.height = 1,
              LogicalScreenDescriptor.colortable_exists = False,
              LogicalScreenDescriptor.color_resolution = 0,
              LogicalScreenDescriptor.colortable_is_sorted = False,
              LogicalScreenDescriptor.colortable_size = 0,
              LogicalScreenDescriptor.background_color_index = 0,
              LogicalScreenDescriptor.pixel_aspect_ratio = 0\<rparr>"
  let ?g = "\<lparr>disposal_method = RESTORE_BACKGROUND, user_input_flag = False,
             transparent_flag = False, transparent_color = 0, delay = 50\<rparr>"
  have start: "before_loop (GifStream_init control_comment_control_gif) =
      (Inr (GIF89a, ?lsd, None), ?at 13 {})"
    unfolding control_comment_control_gif_def by (simp add: before_loop_def gif_eval)
  have earlier: "round\<^sup>*\<^sup>* (None, [], ?at 13 {}) (None, [], ?at 13 {})"
    by simp
  have first: "check_blocktype (?at 13 {}) = (Inr EXT_GRAPHIC_CONTROL, ?at 13 {})"
    unfolding control_comment_control_gif_def by (simp add: gif_eval)
  have decoded: "consume_graphic_control_extension (?at 13 {}) = (Inr ?g, ?at 21 {})"
    unfolding control_comment_control_gif_def by (simp add: gif_eval)
  have "extension_round (?at 21 {}) (?at 26 {24})"
    unfolding control_comment_control_gif_def extension_round_def by (simp add: gif_eval)
  then have between: "extension_round\<^sup>*\<^sup>* (?at 21 {}) (?at 26 {24})"
    by (rule r_into_rtranclp)
  have second: "check_blocktype (?at 26 {24}) = (Inr EXT_GRAPHIC_CONTROL, ?at 26 {24})"
    unfolding control_comment_control_gif_def by (simp add: gif_eval)
  from second_graphic_control_raises [OF start earlier first decoded between second]
  show ?thesis by simp
qed

text \<open>
  C9. Take two files of the same length that differ only at offsets which \<^verbatim>\<open>skip_data\<close> steps
  over with \<^verbatim>\<open>position += data_size\<close> in the parse of the first, that is in payload bytes of
  the sub-block chains of its image data and skipped extensions. Then the parse of the
  second gives what the parse of the first gives: the same aggregate, with the same
  descriptors, tables and \<^verbatim>\<open>image_data_size\<close> of every image, or the same error; the same
  lines are printed, and the cursor ends at the same offset with the same offsets stepped
  over.
\<close>

theorem parse_ignores_skipped_data:
  assumes len: "length d2 = length d1"
    and diff: "\<forall>i<length d1. d2 ! i \<noteq> d1 ! i \<longrightarrow> i \<in> skipped (fst (snd (Gif_parse_metadata d1)))"
  shows "fst (Gif_parse_metadata d2) = fst (Gif_parse_metadata d1) \<and>
         snd (snd (Gif_parse_metadata d2)) = snd (snd (Gif_parse_metadata d1)) \<and>
         fst (snd (Gif_parse_metadata d2)) = (fst (snd (Gif_parse_metadata d1)))\<lparr>buf := d2\<rparr>"
proof -
  let ?s0 = "GifStream_init d1"
  have init: "GifStream_init d2 = ?s0\<lparr>buf := d2\<rparr>"
    by (simp add: GifStream_init_def MmapCursor_init_def)
  have c0: "clean ?s0" and b0: "buf ?s0 = d1"
    by (simp_all add: clean_def GifStream_init_def MmapCursor_init_def)
  obtain rb sb where b: "before_loop ?s0 = (rb, sb)" by (cases "before_loop ?s0")
  show ?thesis
  proof (cases rb)
    case (Inl e)
    with b have fin: "Gif_parse_metadata d1 = (Inl e, sb, [])"
      by (simp add: Gif_parse_metadata_before_loop)
    with diff len b0 have hyp: "\<forall>i<length d2. i \<notin> skipped sb \<longrightarrow> d2 ! i = buf ?s0 ! i"
      by auto
    from len b0 have len0: "length d2 = length (buf ?s0)" by simp
    from stage_transfer(1) [OF b local_before_loop c0 steps_to_refl len0 hyp] Inl
    have "Gif_parse_metadata d2 = (Inl e, sb\<lparr>buf := d2\<rparr>, [])"
      by (simp add: Gif_parse_metadata_before_loop init)
    with fin show ?thesis by simp
  next
    case (Inr x)
    obtain v lsd table where x: "x = (v, lsd, table)" by (cases x)
    obtain rl s4 where l: "parse_loop None [] sb = (rl, s4)"
      by (cases "parse_loop None [] sb")
    from l have st: "steps_to sb s4" by (rule parse_loop_steps)
    from b Inr x l have sk: "skipped (fst (snd (Gif_parse_metadata d1))) = skipped s4"
      by (cases rl) (simp_all add: Gif_parse_metadata_before_loop close_def)
    with diff len b0 have hyp: "\<forall>i<length d2. i \<notin> skipped s4 \<longrightarrow> d2 ! i = buf ?s0 ! i"
      by auto
    from len b0 have len0: "length d2 = length (buf ?s0)" by simp
    note t = stage_transfer [OF b local_before_loop c0 st len0 hyp]
    from t(3) len0 hyp have "length d2 = length (buf sb)"
      and "\<forall>i<length d2. i \<notin> skipped s4 \<longrightarrow> d2 ! i = buf sb ! i"
      by simp_all
    with l t(2) have l2: "parse_loop None [] (sb\<lparr>buf := d2\<rparr>) = (rl, s4\<lparr>buf := d2\<rparr>)"
      by (intro parse_loop_transfer)
    from b Inr x l t(1) l2 show ?thesis
      by (cases rl) (simp_all add: Gif_parse_metadata_before_loop init close_def)
  qed
qed

theorem parse_ignores_skipped_data_witness:
  "two_table_gif[37 := 0x55] \<noteq> two_table_gif \<and>
   fst (Gif_parse_metadata (two_table_gif[37 := 0x55])) = fst (Gif_parse_metadata two_table_gif) \<and>
   snd (snd (Gif_parse_metadata (two_table_gif[37 := 0x55]))) =
     snd (snd (Gif_parse_metadata two_table_gif))"
proof -
  have len: "length (two_table_gif[37 := 0x55]) = length two_table_gif"
    by simp
  have diff: "\<forall>i<length two_table_gif.
      two_table_gif[37 := 0x55] ! i \<noteq> two_table_gif ! i \<longrightarrow>
      i \<in> skipped (fst (snd (Gif_parse_metadata two_table_gif)))"
    by (auto simp: two_table_gif_parsed dest: list_update_differs)
  have "two_table_gif[37 := 0x55] ! 37 \<noteq> two_table_gif ! 37"
    by (simp add: two_table_gif_def)
  then have "two_table_gif[37 := 0x55] \<noteq> two_table_gif"
    by metis
  with parse_ignores_skipped_data [OF len diff] show ?thesis
    by simp
qed

text \<open>
  C10. The classifier returns none of the block types \<^verbatim>\<open>EXT_COMMENT\<close>, \<^verbatim>\<open>EXT_PLAINTEXT\<close> and
  \<^verbatim>\<open>EXT_APPLICATION\<close>, and neither the dispatch loop, from any state, nor the parse of any file
  raises the error "unexpected blocktype" of the last branch of the loop.
\<close>

theorem unexpected_blocktype_unreachable:
  "fst (check_blocktype s) \<notin> {Inr EXT_COMMENT, Inr EXT_PLAINTEXT, Inr EXT_APPLICATION} \<and>
   fst (parse_loop gc imgs s) \<noteq> Inl UnexpectedBlocktype \<and>
   fst (Gif_parse_metadata contents) \<noteq> Inl UnexpectedBlocktype"
proof -
  have a: "fst (check_blocktype s) \<notin> {Inr EXT_COMMENT, Inr EXT_PLAINTEXT, Inr EXT_APPLICATION}"
    using check_blocktype_variants [of s _ "snd (check_blocktype s)"]
    by (cases "check_blocktype s") auto
  have b: "fst (parse_loop gc imgs s) \<noteq> Inl UnexpectedBlocktype" for gc imgs s
    using parse_loop_Inl [of gc imgs s] by (cases "parse_loop gc imgs s") auto
  have c: "fst (Gif_parse_metadata contents) \<noteq> Inl UnexpectedBlocktype"
    by (auto simp: Gif_parse_metadata_def consume_color_table_def
          split: prod.splits sum.splits if_splits
          dest: consume_header_Inl consume_screen_descriptor_Inl color_table_loop_Inl
            parse_loop_Inl)
  from a b c show ?thesis by simp
qed

end
